theory Spec2Isabelle
  imports Main "HOL-Library.Multiset"
begin

section \<open>Python values and string operations used by the PLC reader\<close>

text \<open>
  The orchestrator (\<^verbatim>\<open>multi_read_write.py\<close>) handles spreadsheet cells, PLC values and
  environment strings. A Python value is modelled by the constructors below; floating-point
  values are outside the model. A \<open>str\<close> is a \<open>string\<close> of code points below 256.
\<close>

datatype pyval = PNone | PBool bool | PInt int | PStr string

text \<open>Python truthiness: \<^verbatim>\<open>not x\<close> holds for None, False, 0 and the empty string.\<close>

fun falsy :: "pyval \<Rightarrow> bool" where
  "falsy PNone = True"
| "falsy (PBool b) = (\<not> b)"
| "falsy (PInt i) = (i = 0)"
| "falsy (PStr s) = (s = [])"

definition digit_char :: "nat \<Rightarrow> char" where
  "digit_char d = char_of (48 + d)"

function str_nat :: "nat \<Rightarrow> string" where
  "str_nat n = (if n < 10 then [digit_char n] else str_nat (n div 10) @ [digit_char (n mod 10)])"
  by pat_completeness auto
termination
  by (relation "measure id") auto

definition str_int :: "int \<Rightarrow> string" where
  "str_int i = (if i < 0 then CHR ''-'' # str_nat (nat (- i)) else str_nat (nat i))"

text \<open>\<^verbatim>\<open>str(x)\<close>.\<close>

fun py_str :: "pyval \<Rightarrow> string" where
  "py_str PNone = ''None''"
| "py_str (PBool b) = (if b then ''True'' else ''False'')"
| "py_str (PInt i) = str_int i"
| "py_str (PStr s) = s"

text \<open>
  \<^verbatim>\<open>str.isspace\<close> on the code points below 256: tab, line feed, vertical tab, form
  feed, carriage return, the four separators \<open>0x1c\<close>..\<open>0x1f\<close>, the space, the next-line
  control \<open>0x85\<close> and the no-break space \<open>0xa0\<close>.
\<close>

definition isspace :: "char \<Rightarrow> bool" where
  "isspace c =
     (let n = (of_char c :: nat)
      in (9 \<le> n \<and> n \<le> 13) \<or> (28 \<le> n \<and> n \<le> 32) \<or> n = 133 \<or> n = 160)"

text \<open>\<^verbatim>\<open>s.strip()\<close>: whitespace removed at both ends.\<close>

definition lstrip :: "string \<Rightarrow> string" where
  "lstrip s = dropWhile isspace s"

definition rstrip :: "string \<Rightarrow> string" where
  "rstrip s = rev (dropWhile isspace (rev s))"

definition strip :: "string \<Rightarrow> string" where
  "strip s = rstrip (lstrip s)"

text \<open>\<^verbatim>\<open>s.startswith(p)\<close>, \<^verbatim>\<open>s.endswith(p)\<close> and \<^verbatim>\<open>sub in s\<close>.\<close>

definition startswith :: "string \<Rightarrow> string \<Rightarrow> bool" where
  "startswith s p = (take (length p) s = p)"

definition endswith :: "string \<Rightarrow> string \<Rightarrow> bool" where
  "endswith s p = (length p \<le> length s \<and> drop (length s - length p) s = p)"

fun contains :: "string \<Rightarrow> string \<Rightarrow> bool" where
  "contains sub [] = (sub = [])"
| "contains sub (c # cs) = (startswith (c # cs) sub \<or> contains sub cs)"

text \<open>
  \<^verbatim>\<open>s.replace(old, new)\<close>: every non-overlapping occurrence of \<open>old\<close>, scanning from the
  left, is replaced by \<open>new\<close>. For an empty \<open>old\<close> Python inserts \<open>new\<close> before every
  character and at the end.
\<close>

function replace_scan :: "string \<Rightarrow> string \<Rightarrow> string \<Rightarrow> string" where
  "replace_scan old new [] = []"
| "replace_scan old new (c # cs) =
     (if old \<noteq> [] \<and> startswith (c # cs) old
      then new @ replace_scan old new (drop (length old) (c # cs))
      else c # replace_scan old new cs)"
  by pat_completeness auto
termination
  by (relation "measure (\<lambda>(old, new, s). length s)") (auto simp: neq_Nil_conv)

definition replace :: "string \<Rightarrow> string \<Rightarrow> string \<Rightarrow> string" where
  "replace s old new =
     (if old = [] then new @ concat (map (\<lambda>c. c # new) s) else replace_scan old new s)"

text \<open>
  \<^verbatim>\<open>s.upper()\<close> on the code points below 256: the letters a..z and \<open>0xe0\<close>..\<open>0xfe\<close>
  (without the division sign \<open>0xf7\<close>) move down by 32, the sharp s \<open>0xdf\<close> becomes
  \<open>SS\<close>. The upper-case forms of the micro sign \<open>0xb5\<close> and of \<open>0xff\<close> are code
  points above 255, which a \<open>string\<close> cannot hold: these two are left as they are, and
  strings that hold them are outside the model.
\<close>

definition upper_char :: "char \<Rightarrow> string" where
  "upper_char c =
     (let n = (of_char c :: nat)
      in if (97 \<le> n \<and> n \<le> 122) \<or> (224 \<le> n \<and> n \<le> 254 \<and> n \<noteq> 247) then [char_of (n - 32)]
         else if n = 223 then ''SS''
         else [c])"

definition upper :: "string \<Rightarrow> string" where
  "upper s = concat (map upper_char s)"

section \<open>Name normalisation\<close>

text \<open>
  \<^verbatim>\<open>
  def normalize_plc_name(name):
      if not name:
          return None
      name = str(name).strip()
      name = name.replace("::", "").replace(" ", "")
      if not name.startswith("["):
          name = f"[{name}]"
      return name
  \<close>
  \<^verbatim>\<open>normalize_excel_plc_name\<close> of \<^verbatim>\<open>debug_muli_read.py\<close> has the same body.
\<close>

definition normalize_plc_name :: "pyval \<Rightarrow> string option" where
  "normalize_plc_name name =
     (if falsy name then None
      else let name1 = strip (py_str name);
               name2 = replace (replace name1 ''::'' '''') '' '' ''''
           in if \<not> startswith name2 ''['' then Some (''['' @ name2 @ '']'') else Some name2)"

definition normalize_excel_plc_name :: "pyval \<Rightarrow> string option" where
  "normalize_excel_plc_name name =
     (if falsy name then None
      else let name1 = strip (py_str name);
               name2 = replace (replace name1 ''::'' '''') '' '' ''''
           in if \<not> startswith name2 ''['' then Some (''['' @ name2 @ '']'') else Some name2)"

text \<open>The result of one call handed to the next call as its argument.\<close>

definition as_pyval :: "string option \<Rightarrow> pyval" where
  "as_pyval r = (case r of None \<Rightarrow> PNone | Some s \<Rightarrow> PStr s)"

section \<open>Device registry resolver\<close>

text \<open>
  The process environment is the list of its key/value pairs in iteration order, keys
  distinct; \<^verbatim>\<open>os.getenv(k)\<close> is a lookup by the exact key. A \<open>dict\<close> keeps insertion
  order, and assigning to a key that is present replaces its value in place.
\<close>

type_synonym environ = "(string \<times> string) list"

definition getenv :: "environ \<Rightarrow> string \<Rightarrow> string option" where
  "getenv env k = map_of env k"

fun dict_set :: "('k \<times> 'v) list \<Rightarrow> 'k \<Rightarrow> 'v \<Rightarrow> ('k \<times> 'v) list" where
  "dict_set [] k v = [(k, v)]"
| "dict_set ((k', v') # d) k v = (if k' = k then (k, v) # d else (k', v') # dict_set d k v)"

record plc_info =
  plc_type :: string
  plc_ip :: string

text \<open>
  \<^verbatim>\<open>load_plc_config_from_env\<close> of \<^verbatim>\<open>multi_read_write.py\<close>; \<open>plc_entry\<close> is the body of
  its loop for one key/value pair: \<open>None\<close> where the pair is passed over (the key does not
  match, or the IP is missing or empty and a warning is logged), else the dictionary entry
  that is stored. Log lines are not part of the model.
  \<^verbatim>\<open>
  for key, value in os.environ.items():
      key_u = key.upper()
      if key_u.startswith("PLC_") and key_u.endswith("_TYPE"):
          raw_name = key_u.replace("PLC_", "").replace("_TYPE", "")
          plc_type = value.strip().upper()
          normalized_name = normalize_plc_name(raw_name)
          ip_key = f"PLC_{raw_name}_IP"
          ip_val = os.getenv(ip_key)
          if not ip_val:
              continue
          plcs[normalized_name] = {"type": plc_type, "ip": ip_val.strip()}
  \<close>
\<close>

definition plc_entry :: "environ \<Rightarrow> string \<Rightarrow> string \<Rightarrow> (string option \<times> plc_info) option" where
  "plc_entry env key val =
     (let key_u = upper key in
      if startswith key_u ''PLC_'' \<and> endswith key_u ''_TYPE'' then
        (let raw_name = replace (replace key_u ''PLC_'' '''') ''_TYPE'' '''';
             ptype = upper (strip val);
             normalized_name = normalize_plc_name (PStr raw_name);
             ip_key = ''PLC_'' @ raw_name @ ''_IP''
         in case getenv env ip_key of
              None \<Rightarrow> None
            | Some ip_val \<Rightarrow>
                if ip_val = [] then None
                else Some (normalized_name, \<lparr>plc_type = ptype, plc_ip = strip ip_val\<rparr>))
      else None)"

fun load_plcs :: "environ \<Rightarrow> (string \<times> string) list \<Rightarrow> (string option \<times> plc_info) list
    \<Rightarrow> (string option \<times> plc_info) list" where
  "load_plcs env [] plcs = plcs"
| "load_plcs env ((key, val) # items) plcs =
     (case plc_entry env key val of
        None \<Rightarrow> load_plcs env items plcs
      | Some (name, info) \<Rightarrow> load_plcs env items (dict_set plcs name info))"

definition load_plc_config_from_env :: "environ \<Rightarrow> (string option \<times> plc_info) list" where
  "load_plc_config_from_env env = load_plcs env env []"

text \<open>
  \<^verbatim>\<open>load_plc_config_from_env\<close> of \<^verbatim>\<open>debug_muli_read.py\<close>, which names a device by its
  type:
  \<^verbatim>\<open>
  base = key_up.replace("PLC_", "").replace("_TYPE", "").strip()
  plc_type = value.strip().upper()
  if plc_type == "MICROLOGIX":          # keep full name
      excel_name = f"[{base}]"
      ip_key = f"PLC_{base}_IP"
      ...
  else:                                 # remove _PLC
      clean = base.replace("_PLC", "")
      excel_name = f"[{clean}]"
      ip_key = f"PLC_{clean}_IP"
      ...
  \<close>
\<close>

definition debug_plc_entry :: "environ \<Rightarrow> string \<Rightarrow> string \<Rightarrow> (string \<times> plc_info) option" where
  "debug_plc_entry env key val =
     (let key_up = upper key in
      if startswith key_up ''PLC_'' \<and> endswith key_up ''_TYPE'' then
        (let base = strip (replace (replace key_up ''PLC_'' '''') ''_TYPE'' '''');
             ptype = upper (strip val)
         in if ptype = ''MICROLOGIX'' then
              (let excel_name = ''['' @ base @ '']'';
                   ip_key = ''PLC_'' @ base @ ''_IP''
               in case getenv env ip_key of
                    None \<Rightarrow> None
                  | Some ip_val \<Rightarrow>
                      if ip_val = [] then None
                      else Some (excel_name, \<lparr>plc_type = ptype, plc_ip = strip ip_val\<rparr>))
            else
              (let clean = replace base ''_PLC'' '''';
                   excel_name = ''['' @ clean @ '']'';
                   ip_key = ''PLC_'' @ clean @ ''_IP''
               in case getenv env ip_key of
                    None \<Rightarrow> None
                  | Some ip_val \<Rightarrow>
                      if ip_val = [] then None
                      else Some (excel_name, \<lparr>plc_type = ptype, plc_ip = strip ip_val\<rparr>)))
      else None)"

fun debug_load_plcs :: "environ \<Rightarrow> (string \<times> string) list \<Rightarrow> (string \<times> plc_info) list
    \<Rightarrow> (string \<times> plc_info) list" where
  "debug_load_plcs env [] plcs = plcs"
| "debug_load_plcs env ((key, val) # items) plcs =
     (case debug_plc_entry env key val of
        None \<Rightarrow> debug_load_plcs env items plcs
      | Some (name, info) \<Rightarrow> debug_load_plcs env items (dict_set plcs name info))"

definition debug_load_plc_config_from_env :: "environ \<Rightarrow> (string \<times> plc_info) list" where
  "debug_load_plc_config_from_env env = debug_load_plcs env env []"

section \<open>Clock, dates and log retention\<close>

text \<open>
  A reading of \<^verbatim>\<open>datetime.now()\<close>. Datetimes are compared, and days subtracted, on the
  time line of microseconds counted from the proleptic Gregorian ordinal of the date, as
  Python's \<^verbatim>\<open>datetime\<close> does (\<^verbatim>\<open>_ymd2ord\<close>).
\<close>

record datetime =
  year :: nat
  month :: nat
  day :: nat
  hour :: nat
  minute :: nat
  second :: nat
  microsecond :: nat

definition is_leap :: "nat \<Rightarrow> bool" where
  "is_leap y = (y mod 4 = 0 \<and> (y mod 100 \<noteq> 0 \<or> y mod 400 = 0))"

definition days_in_month :: "nat \<Rightarrow> nat \<Rightarrow> nat" where
  "days_in_month y m =
     (if m = 2 \<and> is_leap y then 29 else [31, 28, 31, 30, 31, 30, 31, 31, 30, 31, 30, 31] ! (m - 1))"

definition days_before_year :: "nat \<Rightarrow> int" where
  "days_before_year y = (let y1 = int y - 1 in y1 * 365 + y1 div 4 - y1 div 100 + y1 div 400)"

definition days_before_month :: "nat \<Rightarrow> nat \<Rightarrow> int" where
  "days_before_month y m =
     int (sum_list (take (m - 1) [31, 28, 31, 30, 31, 30, 31, 31, 30, 31, 30, 31]))
       + (if m > 2 \<and> is_leap y then 1 else 0)"

definition toordinal :: "nat \<Rightarrow> nat \<Rightarrow> nat \<Rightarrow> int" where
  "toordinal y m d = days_before_year y + days_before_month y m + int d"

definition day_us :: int where
  "day_us = 86400000000"

definition micros :: "datetime \<Rightarrow> int" where
  "micros t = toordinal (year t) (month t) (day t) * day_us
       + ((int (hour t) * 60 + int (minute t)) * 60 + int (second t)) * 1000000
       + int (microsecond t)"

text \<open>\<^verbatim>\<open>now.date()\<close>.\<close>

definition date_of :: "datetime \<Rightarrow> nat \<times> nat \<times> nat" where
  "date_of t = (year t, month t, day t)"

text \<open>
  \<^verbatim>\<open>datetime.strptime(date_str, "%Y%m%d")\<close>. CPython matches the regular expression
  \<^verbatim>\<open>(\d\d\d\d)(1[0-2]|0[1-9]|[1-9])(3[0-1]|[1-2]\d|0[1-9]|[1-9]| [1-9])\<close> at the start of the
  string, alternatives tried in this order with backtracking, raises \<open>ValueError\<close> when the
  first match leaves characters over, and again when the date does not exist (year 0, a
  day past the end of the month). \<open>None\<close> is the \<open>ValueError\<close>.
\<close>

definition isdigit :: "char \<Rightarrow> bool" where
  "isdigit c = (let n = (of_char c :: nat) in 48 \<le> n \<and> n \<le> 57)"

definition digit_val :: "char \<Rightarrow> nat" where
  "digit_val c = of_char c - 48"

definition in_range :: "char \<Rightarrow> nat \<Rightarrow> nat \<Rightarrow> bool" where
  "in_range c lo hi = (isdigit c \<and> lo \<le> digit_val c \<and> digit_val c \<le> hi)"

fun match_two :: "(char \<Rightarrow> bool) \<Rightarrow> (char \<Rightarrow> bool) \<Rightarrow> string \<Rightarrow> (nat \<times> string) list" where
  "match_two p q (a # b # r) =
     (if p a \<and> q b then [((if isdigit a then digit_val a else 0) * 10 + digit_val b, r)] else [])"
| "match_two p q s = []"

fun match_one :: "(char \<Rightarrow> bool) \<Rightarrow> string \<Rightarrow> (nat \<times> string) list" where
  "match_one p (a # r) = (if p a then [(digit_val a, r)] else [])"
| "match_one p [] = []"

definition match_m :: "string \<Rightarrow> (nat \<times> string) list" where
  "match_m s = match_two (\<lambda>c. c = CHR ''1'') (\<lambda>c. in_range c 0 2) s
             @ match_two (\<lambda>c. c = CHR ''0'') (\<lambda>c. in_range c 1 9) s
             @ match_one (\<lambda>c. in_range c 1 9) s"

definition match_d :: "string \<Rightarrow> (nat \<times> string) list" where
  "match_d s = match_two (\<lambda>c. c = CHR ''3'') (\<lambda>c. in_range c 0 1) s
             @ match_two (\<lambda>c. in_range c 1 2) isdigit s
             @ match_two (\<lambda>c. c = CHR ''0'') (\<lambda>c. in_range c 1 9) s
             @ match_one (\<lambda>c. in_range c 1 9) s
             @ match_two (\<lambda>c. c = CHR '' '') (\<lambda>c. in_range c 1 9) s"

definition match_Ymd :: "string \<Rightarrow> ((nat \<times> nat \<times> nat) \<times> string) list" where
  "match_Ymd s =
     (case s of
        a # b # c # d # r \<Rightarrow>
          if isdigit a \<and> isdigit b \<and> isdigit c \<and> isdigit d then
            concat (map (\<lambda>(m, r1). map (\<lambda>(dd, r2).
                ((((digit_val a * 10 + digit_val b) * 10 + digit_val c) * 10 + digit_val d, m, dd), r2))
              (match_d r1)) (match_m r))
          else []
      | _ \<Rightarrow> [])"

definition strptime_Ymd :: "string \<Rightarrow> datetime option" where
  "strptime_Ymd s =
     (case match_Ymd s of
        [] \<Rightarrow> None
      | ((y, m, d), rest) # _ \<Rightarrow>
          if rest \<noteq> [] then None
          else if y < 1 \<or> d < 1 \<or> d > days_in_month y m then None
          else Some \<lparr>year = y, month = m, day = d, hour = 0, minute = 0, second = 0,
                     microsecond = 0\<rparr>)"

text \<open>
  The log directory: the names \<^verbatim>\<open>os.listdir(LOG_DIR)\<close> returns, in its order, each with
  whether \<^verbatim>\<open>os.remove\<close> succeeds on it; \<open>None\<close> when the directory cannot be listed.
  \<^verbatim>\<open>
  def purge_old_logs(days_keep: int = 7):
      cutoff = datetime.now() - timedelta(days=days_keep)
      try:
          for fname in os.listdir(LOG_DIR):
              if not fname.startswith("plc_reader_") or not fname.endswith(".log"):
                  continue
              date_str = fname[len("plc_reader_"):-4]
              try:
                  fdate = datetime.strptime(date_str, "%Y%m%d")
              except ValueError:
                  continue
              if fdate < cutoff:
                  full_path = os.path.join(LOG_DIR, fname)
                  os.remove(full_path)
      except Exception as e:
          print(f"[LOG_PURGE_ERROR] {e}")
  \<close>
  \<open>is_old\<close> is the chain of tests that leads to \<^verbatim>\<open>os.remove\<close>. \<open>purge_loop\<close> is the
  \<open>for\<close> loop: it returns the entries left in the directory and whether an exception
  left the loop; \<open>purge_old_logs\<close> adds the handler, which prints and returns.
\<close>

type_synonym log_dir = "(string \<times> bool) list option"

definition is_old :: "int \<Rightarrow> string \<Rightarrow> bool" where
  "is_old cutoff fname =
     (if \<not> startswith fname ''plc_reader_'' \<or> \<not> endswith fname ''.log'' then False
      else let date_str = drop (length ''plc_reader_'') (take (length fname - 4) fname)
           in case strptime_Ymd date_str of
                None \<Rightarrow> False
              | Some fdate \<Rightarrow> micros fdate < cutoff)"

fun purge_loop :: "int \<Rightarrow> (string \<times> bool) list \<Rightarrow> (string \<times> bool) list \<times> bool" where
  "purge_loop cutoff [] = ([], False)"
| "purge_loop cutoff ((fname, removable) # rest) =
     (if is_old cutoff fname then
        (if removable then purge_loop cutoff rest
         else ((fname, removable) # rest, True))
      else (let (kept, raised) = purge_loop cutoff rest in ((fname, removable) # kept, raised)))"

definition purge_old_logs :: "datetime \<Rightarrow> int \<Rightarrow> log_dir \<Rightarrow> log_dir \<times> string list" where
  "purge_old_logs now days_keep dir =
     (let cutoff = micros now - days_keep * day_us in
      case dir of
        None \<Rightarrow> (None, [''[LOG_PURGE_ERROR]''])
      | Some entries \<Rightarrow>
          (let (kept, raised) = purge_loop cutoff entries
           in (Some kept, if raised then [''[LOG_PURGE_ERROR]''] else [])))"

section \<open>Daily restart check\<close>

text \<open>
  The test at the top of every cycle of \<^verbatim>\<open>main_loop\<close>:
  \<^verbatim>\<open>
  now_check = datetime.now()
  if (now_check.hour == 2 and now_check.minute == 0
          and (last_restart_date is None or last_restart_date != now_check.date())):
      last_restart_date = now_check.date()
      os.execv(python, [python] + sys.argv)
  \<close>
  \<open>restart_check\<close> returns whether the restart fires and the value of
  \<^verbatim>\<open>last_restart_date\<close> after the test.
\<close>

definition restart_due :: "datetime \<Rightarrow> (nat \<times> nat \<times> nat) option \<Rightarrow> bool" where
  "restart_due now_check last_restart_date =
     (hour now_check = 2 \<and> minute now_check = 0
      \<and> (last_restart_date = None \<or> last_restart_date \<noteq> Some (date_of now_check)))"

definition restart_check :: "datetime \<Rightarrow> (nat \<times> nat \<times> nat) option
    \<Rightarrow> bool \<times> (nat \<times> nat \<times> nat) option" where
  "restart_check now_check last_restart_date =
     (if restart_due now_check last_restart_date then (True, Some (date_of now_check))
      else (False, last_restart_date))"

section \<open>Tags, results and the protocol read adapters\<close>

text \<open>
  A catalog row as \<^verbatim>\<open>load_excel_tags\<close> stores it. The tag index column of the catalog
  holds integers, so sorting on it never compares values of different kinds.
\<close>

record tag =
  tag_row :: nat
  tag_name :: string
  tag_index :: int
  tag_type :: pyval
  tag_dtype :: pyval

text \<open>What an adapter returns for one tag, and the same after the worker has added \<^verbatim>\<open>"plc"\<close>.\<close>

record read_result =
  rd_value :: pyval
  rd_status :: string
  rd_tag :: tag

record result =
  res_plc :: "string option"
  res_value :: pyval
  res_status :: string
  res_tag :: tag

text \<open>
  The wire-protocol libraries are not part of the program: one attempt either raises or
  returns the library's reply. \<^verbatim>\<open>SLCDriver.read\<close> returns one \<open>Tag\<close> or a list of them,
  each with \<^verbatim>\<open>.value\<close> and \<^verbatim>\<open>.error\<close>; \<^verbatim>\<open>PLC.Read\<close> returns a list of responses with
  \<^verbatim>\<open>.Value\<close> and \<^verbatim>\<open>.Status\<close>.
\<close>

datatype 'a outcome = Raises string | Returns 'a

record slc_tag =
  slc_value :: pyval
  slc_error :: "string option"

datatype slc_reply = SlcOne slc_tag | SlcMany "slc_tag list"

record lgx_response =
  lgx_Value :: pyval
  lgx_Status :: string

text \<open>
  What one device does during one cycle: the \<^verbatim>\<open>ping\<close> subprocess (raising, or its
  standard output), the outcome of the \<open>n\<close>-th read attempt (counted from 0) of each
  driver, and whether the \<^verbatim>\<open>log\<close> call in the handler of the \<open>n\<close>-th attempt returns.
  \<^verbatim>\<open>
  def log(msg: str):
      ts = datetime.now().strftime("%Y-%m-%d %H:%M:%S")
      line = f"{ts} | {msg}"
      print(line)
      try:
          ...
      except Exception as e:
          print(f"[LOG_WRITE_ERROR] {e}")
  \<close>
  \<^verbatim>\<open>print(line)\<close> stands before the \<^verbatim>\<open>try\<close>, and the message of the two retry handlers
  holds the arrow U+2192: on a standard output that cannot encode it (cp1252, the default
  of a redirected output on Windows) \<^verbatim>\<open>print\<close> raises \<open>UnicodeEncodeError\<close> and \<^verbatim>\<open>log\<close>
  passes it on. The other log lines of the program are ASCII around the names they quote;
  their calls are taken to return and are not part of the model.
\<close>

record device_io =
  ping_run :: "string outcome"
  slc_read :: "nat \<Rightarrow> slc_reply outcome"
  logix_read :: "bool \<Rightarrow> nat \<Rightarrow> lgx_response list outcome"
  log_ok :: "nat \<Rightarrow> bool"

text \<open>
  \<^verbatim>\<open>
  def ping(ip):
      try:
          res = subprocess.run(["ping", "-n", "1", "-w", "700", ip], ...)
          return "TTL" in res.stdout
      except Exception as e:
          return False
  \<close>
\<close>

definition ping :: "string outcome \<Rightarrow> bool" where
  "ping run = (case run of Raises e \<Rightarrow> False | Returns stdout \<Rightarrow> contains ''TTL'' stdout)"

text \<open>The list every adapter returns when all attempts have raised.\<close>

definition no_response :: "tag list \<Rightarrow> read_result list" where
  "no_response tag_list =
     map (\<lambda>t. \<lparr>rd_value = PNone, rd_status = ''NO RESPONSE'', rd_tag = t\<rparr>) tag_list"

text \<open>
  \<^verbatim>\<open>
  def read_micro_logix(ip, tag_list, retries=3):
      for attempt in range(retries):
          try:
              with SLCDriver(ip) as plc:
                  resp = plc.read(*addrs)
                  resp_list = resp if isinstance(resp, list) else [resp]
                  results = []
                  for r, t in zip(resp_list, tag_list):
                      results.append({"value": r.value,
                                      "status": "OK" if not r.error else str(r.error),
                                      "tag": t})
                  return results
          except Exception as e:
              log(f"[ERROR][MicroLogix {ip}] Attempt {attempt+1}/{retries} -> {e}")
              time.sleep(0.2)
      return [{"value": None, "status": "NO RESPONSE", "tag": t} for t in tag_list]
  \<close>
  (the message is written here with \<open>->\<close> for its arrow U+2192). Each function returns
  what it returns or raises, together with the number of read attempts it made. The loop
  functions take the number of the next attempt and the attempts left; their result is
  \<open>Returns (Some results)\<close> for the \<^verbatim>\<open>return\<close> inside the loop, \<open>Returns None\<close> when the
  loop runs out, and \<open>Raises\<close> when \<^verbatim>\<open>log\<close> raises inside the handler, which no \<^verbatim>\<open>try\<close>
  of the adapter encloses.
\<close>

definition micro_results :: "slc_reply \<Rightarrow> tag list \<Rightarrow> read_result list" where
  "micro_results resp tag_list =
     (let resp_list = (case resp of SlcOne r \<Rightarrow> [r] | SlcMany rs \<Rightarrow> rs)
      in map (\<lambda>(r, t). \<lparr>rd_value = slc_value r,
                         rd_status = (case slc_error r of
                                        None \<Rightarrow> ''OK''
                                      | Some e \<Rightarrow> if e = [] then ''OK'' else e),
                         rd_tag = t\<rparr>)
           (zip resp_list tag_list))"

fun micro_loop :: "(nat \<Rightarrow> bool) \<Rightarrow> (nat \<Rightarrow> slc_reply outcome) \<Rightarrow> tag list \<Rightarrow> nat \<Rightarrow> nat
    \<Rightarrow> read_result list option outcome \<times> nat" where
  "micro_loop lg rd tag_list attempt 0 = (Returns None, 0)"
| "micro_loop lg rd tag_list attempt (Suc left) =
     (case rd attempt of
        Returns resp \<Rightarrow> (Returns (Some (micro_results resp tag_list)), 1)
      | Raises e \<Rightarrow>
          if lg attempt then
            (let (res, n) = micro_loop lg rd tag_list (Suc attempt) left in (res, Suc n))
          else (Raises ''UnicodeEncodeError'', 1))"

definition read_micro_logix :: "(nat \<Rightarrow> bool) \<Rightarrow> (nat \<Rightarrow> slc_reply outcome) \<Rightarrow> tag list \<Rightarrow> nat
    \<Rightarrow> read_result list outcome \<times> nat" where
  "read_micro_logix lg rd tag_list retries =
     (case micro_loop lg rd tag_list 0 retries of
        (Returns (Some results), n) \<Rightarrow> (Returns results, n)
      | (Returns None, n) \<Rightarrow> (Returns (no_response tag_list), n)
      | (Raises e, n) \<Rightarrow> (Raises e, n))"

text \<open>
  \<^verbatim>\<open>
  def read_logix(ip, tag_list, is_micro800, retries=3):
      for attempt in range(retries):
          try:
              with PLC() as comm:
                  resp_list = comm.Read(tags)
                  results = []
                  for r, t in zip(resp_list, tag_list):
                      results.append({"value": r.Value, "status": r.Status, "tag": t})
                  return results
          except Exception as e:
              log(f"[ERROR][Logix {ip}] Attempt {attempt+1}/{retries} -> {e}")
              time.sleep(0.2)
      return [{"value": None, "status": "NO RESPONSE", "tag": t} for t in tag_list]
  \<close>
\<close>

definition logix_results :: "lgx_response list \<Rightarrow> tag list \<Rightarrow> read_result list" where
  "logix_results resp_list tag_list =
     map (\<lambda>(r, t). \<lparr>rd_value = lgx_Value r, rd_status = lgx_Status r, rd_tag = t\<rparr>)
       (zip resp_list tag_list)"

fun logix_loop :: "(nat \<Rightarrow> bool) \<Rightarrow> (nat \<Rightarrow> lgx_response list outcome) \<Rightarrow> tag list \<Rightarrow> nat
    \<Rightarrow> nat \<Rightarrow> read_result list option outcome \<times> nat" where
  "logix_loop lg rd tag_list attempt 0 = (Returns None, 0)"
| "logix_loop lg rd tag_list attempt (Suc left) =
     (case rd attempt of
        Returns resp_list \<Rightarrow> (Returns (Some (logix_results resp_list tag_list)), 1)
      | Raises e \<Rightarrow>
          if lg attempt then
            (let (res, n) = logix_loop lg rd tag_list (Suc attempt) left in (res, Suc n))
          else (Raises ''UnicodeEncodeError'', 1))"

definition read_logix :: "(nat \<Rightarrow> bool) \<Rightarrow> (bool \<Rightarrow> nat \<Rightarrow> lgx_response list outcome) \<Rightarrow> tag list
    \<Rightarrow> bool \<Rightarrow> nat \<Rightarrow> read_result list outcome \<times> nat" where
  "read_logix lg rd tag_list is_micro800 retries =
     (case logix_loop lg (rd is_micro800) tag_list 0 retries of
        (Returns (Some results), n) \<Rightarrow> (Returns results, n)
      | (Returns None, n) \<Rightarrow> (Returns (no_response tag_list), n)
      | (Raises e, n) \<Rightarrow> (Raises e, n))"

section \<open>Poll worker\<close>

text \<open>
  \<^verbatim>\<open>
  def plc_worker(plc_name, plc_info, tag_list, result_bucket):
      ip = plc_info["ip"]
      plc_type = plc_info["type"]
      if not ping(ip):
          for t in tag_list:
              result_bucket.append({"plc": plc_name, "value": None,
                                    "status": "OFFLINE", "tag": t})
          return
      if plc_type == "MICROLOGIX":
          results = read_micro_logix(ip, tag_list)
      else:
          results = read_logix(ip, tag_list, is_micro800=(plc_type == "MICRO800"))
      for r in results:
          r["plc"] = plc_name
          result_bucket.append(r)
  \<close>
  The worker returns what it appends to the bucket, in order, the number of protocol
  read attempts it made, and the exception that left it, if any. Both adapters are called
  with their default of three retries. The worker has no \<^verbatim>\<open>try\<close>: an exception that
  leaves the adapter leaves the worker before it has appended anything and ends its
  thread; the main thread's \<^verbatim>\<open>join\<close> returns all the same.
\<close>

definition default_retries :: nat where
  "default_retries = 3"

definition stamp :: "string option \<Rightarrow> read_result \<Rightarrow> result" where
  "stamp name r = \<lparr>res_plc = name, res_value = rd_value r, res_status = rd_status r,
                    res_tag = rd_tag r\<rparr>"

definition plc_worker :: "string option \<Rightarrow> plc_info \<Rightarrow> tag list \<Rightarrow> device_io
    \<Rightarrow> result list \<times> nat \<times> string option" where
  "plc_worker name info tag_list io =
     (if \<not> ping (ping_run io) then
        (map (\<lambda>t. \<lparr>res_plc = name, res_value = PNone, res_status = ''OFFLINE'', res_tag = t\<rparr>)
           tag_list, 0, None)
      else
        (case (if plc_type info = ''MICROLOGIX''
               then read_micro_logix (log_ok io) (slc_read io) tag_list default_retries
               else read_logix (log_ok io) (logix_read io) tag_list
                      (plc_type info = ''MICRO800'') default_retries) of
           (Returns results, attempts) \<Rightarrow> (map (stamp name) results, attempts, None)
         | (Raises e, attempts) \<Rightarrow> ([], attempts, Some e)))"

section \<open>Cycle orchestration and the two sinks\<close>

text \<open>A row of the relational table, as passed to \<^verbatim>\<open>cursor.execute\<close>.\<close>

record sql_row =
  ReadTime :: datetime
  PLC :: "string option"
  TagIndex :: int
  TagName :: string
  TagType :: pyval
  TagDataType :: pyval
  TagValue :: "string option"
  Status :: string

definition COL_TAGVALUE :: nat where "COL_TAGVALUE = 6"
definition COL_STATUS :: nat where "COL_STATUS = 7"
definition COL_TIMESTAMP :: nat where "COL_TIMESTAMP = 8"

text \<open>
  What the program does to the world outside it, in the order it does it: the log
  directory as the retention sweep leaves it, the calls on the database connection, the
  writes to the cells of the open worksheet (row, column, value) and the saving of the
  workbook. A call that raises leaves no event.
\<close>

datatype event =
    Purged log_dir
  | Connect
  | CellWrite nat nat pyval
  | Execute sql_row
  | Commit
  | CursorClose
  | ConnClose
  | Save

datatype fault = ConnectFailed | ExecuteFailed | CommitFailed | SaveFailed | ExecvFailed

text \<open>
  \<^verbatim>\<open>
  if isinstance(value, bool):
      excel_value = 1 if value else 0
      value_str = str(excel_value)
  else:
      excel_value = value
      value_str = None if value is None else str(value)
  \<close>
\<close>

definition excel_value :: "pyval \<Rightarrow> pyval" where
  "excel_value v = (case v of PBool b \<Rightarrow> PInt (if b then 1 else 0) | _ \<Rightarrow> v)"

definition value_str :: "pyval \<Rightarrow> string option" where
  "value_str v =
     (case v of
        PBool b \<Rightarrow> Some (py_str (PInt (if b then 1 else 0)))
      | PNone \<Rightarrow> None
      | _ \<Rightarrow> Some (py_str v))"

text \<open>\<^verbatim>\<open>now.strftime("%Y-%m-%d %H:%M:%S")\<close>, every field padded with zeros.\<close>

definition zfill :: "nat \<Rightarrow> string \<Rightarrow> string" where
  "zfill n s = replicate (n - length s) (CHR ''0'') @ s"

definition strftime :: "datetime \<Rightarrow> string" where
  "strftime t = zfill 4 (str_nat (year t)) @ ''-'' @ zfill 2 (str_nat (month t)) @ ''-''
       @ zfill 2 (str_nat (day t)) @ '' '' @ zfill 2 (str_nat (hour t)) @ '':''
       @ zfill 2 (str_nat (minute t)) @ '':'' @ zfill 2 (str_nat (second t))"

definition sql_row_of :: "datetime \<Rightarrow> result \<Rightarrow> sql_row" where
  "sql_row_of now r =
     \<lparr>ReadTime = now, PLC = res_plc r, TagIndex = tag_index (res_tag r),
      TagName = tag_name (res_tag r), TagType = tag_type (res_tag r),
      TagDataType = tag_dtype (res_tag r), TagValue = value_str (res_value r),
      Status = res_status r\<rparr>"

definition cell_writes_of :: "string \<Rightarrow> result \<Rightarrow> event list" where
  "cell_writes_of ts r =
     [CellWrite (tag_row (res_tag r)) COL_TAGVALUE (excel_value (res_value r)),
      CellWrite (tag_row (res_tag r)) COL_STATUS (PStr (res_status r)),
      CellWrite (tag_row (res_tag r)) COL_TIMESTAMP (PStr ts)]"

text \<open>
  The loop \<^verbatim>\<open>for r in all_results\<close> of \<^verbatim>\<open>main_loop\<close>: three cell writes, then
  \<^verbatim>\<open>cursor.execute(insert_sql, ...)\<close>. \<open>execute_ok k\<close> tells whether the \<open>k\<close>-th insert
  of the cycle (counted from 0) succeeds; when it raises, the exception leaves the loop.
  The result is the events of the loop and whether it raised.
\<close>

fun persist_loop :: "(nat \<Rightarrow> bool) \<Rightarrow> datetime \<Rightarrow> string \<Rightarrow> nat \<Rightarrow> result list
    \<Rightarrow> event list \<times> bool" where
  "persist_loop ok now ts k [] = ([], False)"
| "persist_loop ok now ts k (r # rs) =
     (if ok k then
        (let (ev, raised) = persist_loop ok now ts (Suc k) rs
         in (cell_writes_of ts r @ Execute (sql_row_of now r) # ev, raised))
      else (cell_writes_of ts r, True))"

text \<open>
  The worker threads append to one shared list, one result at a time. \<open>interleave\<close>
  builds that list from what each worker appends: the schedule names the worker that
  appends next (a worker that has finished, or a number that names none, is passed over),
  and when the schedule is used up the workers still running finish one after the other.
\<close>

fun interleave :: "nat list \<Rightarrow> 'a list list \<Rightarrow> 'a list" where
  "interleave [] buckets = concat buckets"
| "interleave (i # sched) buckets =
     (if i < length buckets then
        (case buckets ! i of
           [] \<Rightarrow> interleave sched buckets
         | x # xs \<Rightarrow> x # interleave sched (buckets[i := xs]))
      else interleave sched buckets)"

text \<open>What one cycle meets: the clock readings, the log directory, devices and sinks.\<close>

record cycle_io =
  now_check :: datetime
  execv_ok :: bool
  purge_now :: datetime
  log_dir_now :: log_dir
  scan_now :: datetime
  connect_ok :: bool
  devices :: "string option \<Rightarrow> device_io"
  schedule :: "nat list"
  execute_ok :: "nat \<Rightarrow> bool"
  commit_ok :: bool
  save_ok :: bool

text \<open>
  \<^verbatim>\<open>
  for plc_name, plc_info in plcs.items():
      if plc_name not in tag_map:
          continue
      t = threading.Thread(target=plc_worker,
                           args=(plc_name, plc_info, tag_map[plc_name], all_results))
      t.start(); threads.append(t)
  for t in threads:
      t.join()
  \<close>
  \<open>spawn_workers\<close> is the list of the started workers' outputs, \<open>gather\<close> the shared list
  \<^verbatim>\<open>all_results\<close> after the join.
\<close>

definition spawn_workers :: "(string option \<times> plc_info) list \<Rightarrow> (string option \<rightharpoonup> tag list)
    \<Rightarrow> (string option \<Rightarrow> device_io) \<Rightarrow> (result list \<times> nat \<times> string option) list" where
  "spawn_workers plcs tag_map dev =
     concat (map (\<lambda>(name, info).
        case tag_map name of
          None \<Rightarrow> []
        | Some tag_list \<Rightarrow> [plc_worker name info tag_list (dev name)]) plcs)"

definition gather :: "(string option \<times> plc_info) list \<Rightarrow> (string option \<rightharpoonup> tag list)
    \<Rightarrow> cycle_io \<Rightarrow> result list" where
  "gather plcs tag_map io =
     interleave (schedule io) (map fst (spawn_workers plcs tag_map (devices io)))"

text \<open>
  One scan of \<^verbatim>\<open>main_loop\<close>, from \<^verbatim>\<open>get_sql_connection()\<close> to \<^verbatim>\<open>wb.save(...)\<close>:
  \<^verbatim>\<open>
  conn = get_sql_connection()
  cursor = conn.cursor()
  ...  (workers, join)
  all_results = sorted(all_results, key=lambda r: r["tag"]["tag_index"])
  for r in all_results:
      ...  (cell writes, cursor.execute)
  conn.commit()
  cursor.close()
  conn.close()
  wb.save(os.getenv("EXCEL_FILE_MAIN"))
  \<close>
  It returns its events and the exception that left it, if any. \<^verbatim>\<open>main_loop\<close> has no
  \<^verbatim>\<open>try\<close>, so an exception raised here leaves \<^verbatim>\<open>main_loop\<close> as well.
\<close>

definition sorted_results :: "(string option \<times> plc_info) list \<Rightarrow> (string option \<rightharpoonup> tag list)
    \<Rightarrow> cycle_io \<Rightarrow> result list" where
  "sorted_results plcs tag_map io =
     sort_key (\<lambda>r. tag_index (res_tag r)) (gather plcs tag_map io)"

definition scan :: "(string option \<times> plc_info) list \<Rightarrow> (string option \<rightharpoonup> tag list)
    \<Rightarrow> cycle_io \<Rightarrow> event list \<times> fault option" where
  "scan plcs tag_map io =
     (let now = scan_now io; ts = strftime now in
      if \<not> connect_ok io then ([], Some ConnectFailed)
      else
        (let all_results = sorted_results plcs tag_map io;
             (ev, raised) = persist_loop (execute_ok io) now ts 0 all_results
         in if raised then (Connect # ev, Some ExecuteFailed)
            else if \<not> commit_ok io then (Connect # ev, Some CommitFailed)
            else if \<not> save_ok io then (Connect # ev @ [Commit, CursorClose, ConnClose], Some SaveFailed)
            else (Connect # ev @ [Commit, CursorClose, ConnClose, Save], None)))"

text \<open>
  \<^verbatim>\<open>main_loop\<close>, run on the cycles it is given: the restart check, the retention sweep
  with \<^verbatim>\<open>days_keep=7\<close>, the scan. The loop has no exit of its own: the process ends when
  \<^verbatim>\<open>os.execv\<close> replaces it (\<open>Restarted\<close>) or when an exception leaves \<^verbatim>\<open>main_loop\<close>
  (\<open>Crashed\<close>; \<^verbatim>\<open>__main__\<close> calls \<^verbatim>\<open>main_loop()\<close> bare). \<open>Running\<close> says the process is
  still in its loop after the cycles given. The result lists the events of every cycle
  begun.
\<close>

datatype run_state = Running | Restarted | Crashed fault

fun run_cycles :: "(string option \<times> plc_info) list \<Rightarrow> (string option \<rightharpoonup> tag list)
    \<Rightarrow> (nat \<times> nat \<times> nat) option \<Rightarrow> cycle_io list \<Rightarrow> event list list \<times> run_state" where
  "run_cycles plcs tag_map last_restart_date [] = ([], Running)"
| "run_cycles plcs tag_map last_restart_date (io # ios) =
     (case restart_check (now_check io) last_restart_date of
        (True, last') \<Rightarrow> ([[]], if execv_ok io then Restarted else Crashed ExecvFailed)
      | (False, last') \<Rightarrow>
          (let swept = fst (purge_old_logs (purge_now io) 7 (log_dir_now io));
               (ev, exc) = scan plcs tag_map io
           in case exc of
                Some e \<Rightarrow> ([Purged swept # ev], Crashed e)
              | None \<Rightarrow>
                  (let (evs, st) = run_cycles plcs tag_map last' ios
                   in ((Purged swept # ev) # evs, st))))"

definition main_loop :: "environ \<Rightarrow> (string option \<rightharpoonup> tag list) \<Rightarrow> cycle_io list
    \<Rightarrow> event list list \<times> run_state" where
  "main_loop env tag_map ios = run_cycles (load_plc_config_from_env env) tag_map None ios"

text \<open>
  The relational store keeps the rows of a connection's inserts only from the commit on
  (\<^verbatim>\<open>pyodbc\<close> connections are opened with autocommit off): \<open>durable ev pending\<close> is the
  list of rows the store holds for good after the events \<open>ev\<close>, \<open>pending\<close> being the rows
  inserted and not yet committed.
\<close>

fun durable :: "event list \<Rightarrow> sql_row list \<Rightarrow> sql_row list" where
  "durable [] pending = []"
| "durable (Execute r # ev) pending = durable ev (pending @ [r])"
| "durable (Commit # ev) pending = pending @ durable ev []"
| "durable (Connect # ev) pending = durable ev []"
| "durable (ConnClose # ev) pending = durable ev []"
| "durable (e # ev) pending = durable ev pending"

text \<open>The rows passed to \<^verbatim>\<open>cursor.execute\<close> and the worksheet rows written, in order.\<close>

fun sql_rows :: "event list \<Rightarrow> sql_row list" where
  "sql_rows [] = []"
| "sql_rows (Execute r # ev) = r # sql_rows ev"
| "sql_rows (e # ev) = sql_rows ev"

fun cell_events :: "event list \<Rightarrow> event list" where
  "cell_events [] = []"
| "cell_events (CellWrite r c v # ev) = CellWrite r c v # cell_events ev"
| "cell_events (e # ev) = cell_events ev"

section \<open>Statements used by the claims\<close>

text \<open>An attempt that raised, and the placeholder a worker appends for a tag.\<close>

definition raises :: "'a outcome \<Rightarrow> bool" where
  "raises out = (case out of Raises e \<Rightarrow> True | Returns x \<Rightarrow> False)"

definition placeholder :: "string option \<Rightarrow> string \<Rightarrow> tag \<Rightarrow> result" where
  "placeholder name st t = \<lparr>res_plc = name, res_value = PNone, res_status = st, res_tag = t\<rparr>"

text \<open>
  The contract of the protocol libraries: a read that returns holds one reply per tag
  asked for (\<^verbatim>\<open>SLCDriver.read\<close> a single \<open>Tag\<close> for a single address). Stated for the
  attempts the adapter of the device's type can make.
\<close>

definition answers_per_tag :: "device_io \<Rightarrow> plc_info \<Rightarrow> tag list \<Rightarrow> bool" where
  "answers_per_tag io info tags =
     list_all (\<lambda>n.
        if plc_type info = ''MICROLOGIX'' then
          (case slc_read io n of
             Raises e \<Rightarrow> True
           | Returns (SlcOne r) \<Rightarrow> length tags = 1
           | Returns (SlcMany rs) \<Rightarrow> length rs = length tags)
        else
          (case logix_read io (plc_type info = ''MICRO800'') n of
             Raises e \<Rightarrow> True
           | Returns rs \<Rightarrow> length rs = length tags))
       [0..<default_retries]"

text \<open>The \<^verbatim>\<open>log\<close> call of every retry handler the adapter can reach returns.\<close>

definition logs_return :: "device_io \<Rightarrow> bool" where
  "logs_return io = list_all (log_ok io) [0..<default_retries]"

text \<open>
  The catalog of the configured devices: every device of the registry that has catalog
  entries, paired with each of its tags; and the number of those pairs.
\<close>

definition catalog_pairs :: "(string option \<times> plc_info) list \<Rightarrow> (string option \<rightharpoonup> tag list)
    \<Rightarrow> (string option \<times> tag) list" where
  "catalog_pairs plcs tag_map =
     concat (map (\<lambda>(name, info).
        case tag_map name of None \<Rightarrow> [] | Some tags \<Rightarrow> map (Pair name) tags) plcs)"

definition catalog_count :: "(string option \<times> plc_info) list \<Rightarrow> (string option \<rightharpoonup> tag list)
    \<Rightarrow> nat" where
  "catalog_count plcs tag_map =
     sum_list (map (\<lambda>(name, info).
        case tag_map name of None \<Rightarrow> 0 | Some tags \<Rightarrow> length tags) plcs)"

text \<open>The events of the loop over the results: cell writes and inserts.\<close>

fun loop_event :: "event \<Rightarrow> bool" where
  "loop_event (CellWrite r c v) = True"
| "loop_event (Execute r) = True"
| "loop_event e = False"

section \<open>Sample data\<close>

text \<open>
  A small plant used to run the definitions: device \<open>[A]\<close>, a MicroLogix with the tags of
  index 10 and 11, and device \<open>[B]\<close>, a CompactLogix with the tag of index 5; clock
  readings on 10 January 2024.
\<close>

definition at :: "nat \<Rightarrow> nat \<Rightarrow> nat \<Rightarrow> datetime" where
  "at h m s = \<lparr>year = 2024, month = 1, day = 10, hour = h, minute = m, second = s,
               microsecond = 0\<rparr>"

definition tag_a1 :: tag where
  "tag_a1 = \<lparr>tag_row = 2, tag_name = ''N7:0'', tag_index = 10, tag_type = PInt 1,
             tag_dtype = PInt 2\<rparr>"

definition tag_a2 :: tag where
  "tag_a2 = \<lparr>tag_row = 3, tag_name = ''N7:1'', tag_index = 11, tag_type = PInt 1,
             tag_dtype = PInt 2\<rparr>"

definition tag_b1 :: tag where
  "tag_b1 = \<lparr>tag_row = 4, tag_name = ''FLOW_TOT1'', tag_index = 5, tag_type = PInt 1,
             tag_dtype = PInt 4\<rparr>"

definition plant_env :: environ where
  "plant_env = [(''PLC_A_TYPE'', ''MicroLogix''), (''PLC_A_IP'', ''192.168.1.20''),
                (''PLC_B_TYPE'', ''Compact''), (''PLC_B_IP'', ''192.168.1.10'')]"

definition plant_plcs :: "(string option \<times> plc_info) list" where
  "plant_plcs = [(Some ''[A]'', \<lparr>plc_type = ''MICROLOGIX'', plc_ip = ''192.168.1.20''\<rparr>),
                 (Some ''[B]'', \<lparr>plc_type = ''COMPACT'', plc_ip = ''192.168.1.10''\<rparr>)]"

definition plant_tags :: "string option \<rightharpoonup> tag list" where
  "plant_tags = [Some ''[A]'' \<mapsto> [tag_a1, tag_a2], Some ''[B]'' \<mapsto> [tag_b1]]"

text \<open>A device that answers, one that does not answer the ping, one that pings and
  then faults on every read; the standard output takes every log line.\<close>

definition dev_up :: device_io where
  "dev_up = \<lparr>ping_run = Returns ''Reply from 192.168.1.20: bytes=32 time<1ms TTL=64'',
             slc_read = (\<lambda>n. Returns (SlcMany [\<lparr>slc_value = PInt 32, slc_error = None\<rparr>,
                                                 \<lparr>slc_value = PBool True, slc_error = None\<rparr>])),
             logix_read = (\<lambda>b n. Returns [\<lparr>lgx_Value = PInt 7, lgx_Status = ''Success''\<rparr>]),
             log_ok = (\<lambda>n. True)\<rparr>"

definition dev_offline :: device_io where
  "dev_offline = \<lparr>ping_run = Returns ''Request timed out.'',
                  slc_read = (\<lambda>n. Raises ''timeout''),
                  logix_read = (\<lambda>b n. Raises ''timeout''),
                  log_ok = (\<lambda>n. True)\<rparr>"

definition dev_mute :: device_io where
  "dev_mute = \<lparr>ping_run = Returns ''Reply from 192.168.1.10: bytes=32 time=2ms TTL=64'',
               slc_read = (\<lambda>n. Raises ''timeout''),
               logix_read = (\<lambda>b n. Raises ''timeout''),
               log_ok = (\<lambda>n. True)\<rparr>"

text \<open>A cycle at 12:00:00 in which \<open>[A]\<close> answers, \<open>[B]\<close> is offline and both sinks work;
  worker \<open>[A]\<close> appends first.\<close>

definition noon_cycle :: cycle_io where
  "noon_cycle = \<lparr>now_check = at 12 0 0, execv_ok = True, purge_now = at 12 0 0,
                 log_dir_now = Some [], scan_now = at 12 0 0, connect_ok = True,
                 devices = (\<lambda>name. if name = Some ''[A]'' then dev_up else dev_offline),
                 schedule = [0, 1, 0], execute_ok = (\<lambda>k. True), commit_ok = True,
                 save_ok = True\<rparr>"

text \<open>The log directory of the retention scenario: partitions of 1, 3, 9 and 10 January.\<close>

definition jan_logs :: "(string \<times> bool) list" where
  "jan_logs = [(''plc_reader_20240101.log'', True), (''plc_reader_20240103.log'', True),
               (''plc_reader_20240109.log'', True), (''plc_reader_20240110.log'', True)]"

section \<open>Properties of the string operations\<close>

lemma replace_scan_subset: "set (replace_scan old [] s) \<subseteq> set s"
proof (induction old "[] :: string" s rule: replace_scan.induct)
  case (1 old)
  then show ?case by simp
next
  case (2 old c cs)
  show ?case
  proof (cases "old \<noteq> [] \<and> startswith (c # cs) old")
    case True
    with 2 have "set (replace_scan old [] (drop (length old) (c # cs))) \<subseteq> set (drop (length old) (c # cs))"
      by simp
    also have "\<dots> \<subseteq> set (c # cs)" by (rule set_drop_subset)
    finally show ?thesis using True by simp
  next
    case False
    with 2 show ?thesis by auto
  qed
qed

lemma replace_scan_single: "c \<notin> set (replace_scan [c] [] s)"
proof (induction "[c]" "[] :: string" s rule: replace_scan.induct)
  case 1
  then show ?case by simp
next
  case (2 d ds)
  then show ?case by (auto simp: startswith_def)
qed

lemma replace_scan_absent: "old \<noteq> [] \<Longrightarrow> \<not> contains old s \<Longrightarrow> replace_scan old new s = s"
  by (induction s) auto

lemma replace_scan_colons: "\<not> contains ''::'' (replace_scan ''::'' [] s)"
proof (induction "''::''" "[] :: string" s rule: replace_scan.induct)
  case 1
  then show ?case by simp
next
  case (2 c cs)
  show ?case
  proof (cases "startswith (c # cs) ''::''")
    case True
    with 2 show ?thesis by simp
  next
    case False
    with 2 have IH: "\<not> contains ''::'' (replace_scan ''::'' [] cs)" by simp
    show ?thesis
    proof (cases "c = CHR '':''")
      case c: True
      show ?thesis
      proof (cases cs)
        case Nil
        with False show ?thesis by (simp add: startswith_def)
      next
        case (Cons d ds)
        with False c have d: "d \<noteq> CHR '':''" by (simp add: startswith_def)
        then have "\<not> startswith (d # ds) ''::''" by (simp add: startswith_def)
        then have "replace_scan ''::'' [] (d # ds) = d # replace_scan ''::'' [] ds" by simp
        with False IH Cons d show ?thesis by (simp add: startswith_def)
      qed
    next
      case c: False
      with False IH show ?thesis by (simp add: startswith_def)
    qed
  qed
qed

lemma contains_single: "contains [c] s \<longleftrightarrow> c \<in> set s"
  by (induction s) (auto simp: startswith_def)

lemma no_colons_snoc: "\<not> contains ''::'' s \<Longrightarrow> \<not> contains ''::'' (s @ '']'')"
proof (induction s)
  case Nil
  then show ?case by (simp add: startswith_def)
next
  case (Cons c cs)
  then show ?case by (cases cs) (auto simp: startswith_def)
qed

lemma no_colons_wrap: "\<not> contains ''::'' s \<Longrightarrow> \<not> contains ''::'' (''['' @ s @ '']'')"
  using no_colons_snoc [of s] by (simp add: startswith_def)

lemma normalize_result:
  assumes "\<not> falsy x"
  shows "normalize_plc_name x =
     Some (let v = replace_scan '' '' [] (replace_scan ''::'' [] (strip (py_str x)))
           in if startswith v ''['' then v else ''['' @ v @ '']'')"
  using assms by (simp add: normalize_plc_name_def replace_def Let_def)

lemma normalize_str_shape:
  assumes "s \<noteq> []"
  shows "\<exists>r. normalize_plc_name (PStr s) = Some r \<and> CHR '' '' \<notin> set r \<and> startswith r ''[''"
proof -
  define v where "v = replace_scan '' '' [] (replace_scan ''::'' [] (strip s))"
  have nosp: "CHR '' '' \<notin> set v" unfolding v_def by (rule replace_scan_single)
  from assms have "\<not> falsy (PStr s)" by simp
  from normalize_result [OF this]
  have "normalize_plc_name (PStr s) = Some (if startswith v ''['' then v else ''['' @ v @ '']'')"
    by (simp add: v_def Let_def)
  moreover have "CHR '' '' \<notin> set (if startswith v ''['' then v else ''['' @ v @ '']'')"
    using nosp by simp
  moreover have "startswith (if startswith v ''['' then v else ''['' @ v @ '']'') ''[''"
    by (simp add: startswith_def)
  ultimately show ?thesis by blast
qed


lemma length_replace_scan_le: "length (replace_scan old [] s) \<le> length s"
proof (induction old "[] :: string" s rule: replace_scan.induct)
  case (1 old)
  then show ?case by simp
next
  case (2 old c cs)
  show ?case
  proof (cases "old \<noteq> [] \<and> startswith (c # cs) old")
    case True
    with 2 have "length (replace_scan old [] (drop (length old) (c # cs)))
        \<le> length (drop (length old) (c # cs))" by simp
    with True show ?thesis by simp
  next
    case False
    with 2 show ?thesis by auto
  qed
qed

lemma length_replace_scan_less:
  "old \<noteq> [] \<Longrightarrow> contains old s \<Longrightarrow> length (replace_scan old [] s) < length s"
proof (induction s)
  case Nil
  then show ?case by simp
next
  case (Cons c cs)
  show ?case
  proof (cases "startswith (c # cs) old")
    case True
    have "length (replace_scan old [] (drop (length old) (c # cs)))
        \<le> length (drop (length old) (c # cs))" by (rule length_replace_scan_le)
    moreover have "length (drop (length old) (c # cs)) < length (c # cs)"
      using Cons.prems(1) by (cases old) simp_all
    ultimately have "length (replace_scan old [] (drop (length old) (c # cs))) < length (c # cs)"
      by (rule le_less_trans)
    moreover have "replace_scan old [] (c # cs)
        = replace_scan old [] (drop (length old) (c # cs))"
      using True Cons.prems(1) by simp
    ultimately show ?thesis by (simp only:)
  next
    case False
    with Cons show ?thesis by simp
  qed
qed

lemma replace_scan_fixed_iff:
  "old \<noteq> [] \<Longrightarrow> replace_scan old [] s = s \<longleftrightarrow> \<not> contains old s"
  using length_replace_scan_less [of old s] replace_scan_absent [of old s "[]"] by fastforce

lemma rstrip_prefix: "\<exists>w. s = rstrip s @ w"
proof -
  have "rev s = takeWhile isspace (rev s) @ dropWhile isspace (rev s)" by simp
  then have "s = rev (dropWhile isspace (rev s)) @ rev (takeWhile isspace (rev s))"
    by (metis rev_append rev_rev_ident)
  then show ?thesis unfolding rstrip_def by blast
qed

lemma length_rstrip_le: "length (rstrip s) \<le> length s"
  using length_dropWhile_le [of isspace "rev s"] by (simp add: rstrip_def)

lemma rstrip_fixed_iff: "rstrip s = s \<longleftrightarrow> s = [] \<or> \<not> isspace (last s)"
proof (cases "s = []")
  case True
  then show ?thesis by (simp add: rstrip_def)
next
  case False
  then have h: "rev s = last s # rev (butlast s)" by (metis append_butlast_last_id rev.simps(2) rev_append rev_rev_ident append_Nil)
  show ?thesis
  proof (cases "isspace (last s)")
    case True
    then have "dropWhile isspace (last s # rev (butlast s))
        = dropWhile isspace (rev (butlast s))" by simp
    then have "rstrip s = rev (dropWhile isspace (rev (butlast s)))"
      unfolding rstrip_def by (simp only: h)
    then have "length (rstrip s) \<le> length (butlast s)"
      using length_dropWhile_le [of isspace "rev (butlast s)"] by simp
    also have "\<dots> < length s" using \<open>s \<noteq> []\<close> by simp
    finally have "rstrip s \<noteq> s" by auto
    with True \<open>s \<noteq> []\<close> show ?thesis by simp
  next
    case False
    then have "dropWhile isspace (last s # rev (butlast s)) = last s # rev (butlast s)"
      by simp
    then have "dropWhile isspace (rev s) = rev s" by (simp only: h)
    then have "rstrip s = s" by (simp add: rstrip_def)
    with False show ?thesis by simp
  qed
qed

lemma bracket_lstrip: "startswith r ''['' \<Longrightarrow> lstrip r = r"
  by (cases r) (simp_all add: startswith_def lstrip_def isspace_def)

lemma bracket_rstrip: "startswith r ''['' \<Longrightarrow> startswith (rstrip r) ''[''"
proof -
  assume a: "startswith r ''[''"
  then obtain cs where r: "r = CHR ''['' # cs" by (cases r) (simp_all add: startswith_def)
  have "rstrip r = CHR ''['' # rstrip cs"
    unfolding r rstrip_def by (simp add: dropWhile_append isspace_def)
  then show ?thesis by (simp add: startswith_def)
qed

lemma bracket_replace: "startswith s ''['' \<Longrightarrow> startswith (replace_scan ''::'' [] s) ''[''"
  by (cases s) (simp_all add: startswith_def)

lemma rstrip_subset: "set (rstrip s) \<subseteq> set s"
  using rstrip_prefix [of s] by (metis set_append Un_upper1)

lemma normalize_bracketed:
  assumes br: "startswith r ''[''" and sp: "CHR '' '' \<notin> set r"
  shows "normalize_plc_name (PStr r) = Some (replace_scan ''::'' [] (rstrip r))"
proof -
  from br have ne: "r \<noteq> []" by (auto simp: startswith_def)
  let ?u = "replace_scan ''::'' [] (rstrip r)"
  have 1: "strip r = rstrip r" using br by (simp add: strip_def bracket_lstrip)
  have "set ?u \<subseteq> set r" using replace_scan_subset [of "''::''" "rstrip r"] rstrip_subset [of r] by blast
  with sp have "CHR '' '' \<notin> set ?u" by blast
  then have 2: "replace_scan '' '' [] ?u = ?u" by (simp add: replace_scan_absent contains_single)
  have 3: "startswith ?u ''[''" using br by (intro bracket_replace bracket_rstrip)
  show ?thesis using ne 3 by (simp add: normalize_plc_name_def 1 2 replace_def)
qed

lemma normalize_again_iff:
  assumes br: "startswith r ''[''" and sp: "CHR '' '' \<notin> set r"
  shows "normalize_plc_name (PStr r) = Some r \<longleftrightarrow> \<not> contains ''::'' r \<and> \<not> isspace (last r)"
proof -
  from br have ne: "r \<noteq> []" by (auto simp: startswith_def)
  have n: "normalize_plc_name (PStr r) = Some (replace_scan ''::'' [] (rstrip r))"
    using br sp by (rule normalize_bracketed)
  show ?thesis
  proof
    assume "normalize_plc_name (PStr r) = Some r"
    with n have e: "replace_scan ''::'' [] (rstrip r) = r" by simp
    have "length (replace_scan ''::'' [] (rstrip r)) \<le> length (rstrip r)"
      by (rule length_replace_scan_le)
    with e have "length r \<le> length (rstrip r)" by simp
    with rstrip_prefix [of r] have rs: "rstrip r = r"
      by (metis append_eq_conv_conj length_rstrip_le le_antisym take_all_iff order_refl)
    with e have "replace_scan ''::'' [] r = r" by simp
    then have "\<not> contains ''::'' r" by (simp add: replace_scan_fixed_iff)
    moreover from rs ne have "\<not> isspace (last r)" by (simp add: rstrip_fixed_iff)
    ultimately show "\<not> contains ''::'' r \<and> \<not> isspace (last r)" by simp
  next
    assume a: "\<not> contains ''::'' r \<and> \<not> isspace (last r)"
    then have "rstrip r = r" by (simp add: rstrip_fixed_iff)
    with a n show "normalize_plc_name (PStr r) = Some r" by (simp add: replace_scan_absent)
  qed
qed

lemma replace_scan_filter: "replace_scan [c] [] s = filter (\<lambda>d. d \<noteq> c) s"
proof (induction "[c]" "[] :: string" s rule: replace_scan.induct)
  case 1
  then show ?case by simp
next
  case (2 d ds)
  then show ?case by (auto simp: startswith_def)
qed

lemma contains_prefix: "contains sub (sub @ b)"
  by (cases sub; cases b) (simp_all add: startswith_def)

lemma contains_middle: "contains sub (a @ sub @ b)"
  by (induction a) (simp_all add: contains_prefix)

lemma contains_iff: "contains sub s \<longleftrightarrow> (\<exists>p q. s = p @ sub @ q)"
proof
  assume "contains sub s"
  then show "\<exists>p q. s = p @ sub @ q"
  proof (induction s)
    case Nil
    then have "[] = [] @ sub @ []" by simp
    then show ?case by blast
  next
    case (Cons c cs)
    from Cons.prems consider "startswith (c # cs) sub" | "contains sub cs" by auto
    then show ?case
    proof cases
      case 1
      then have "c # cs = [] @ sub @ drop (length sub) (c # cs)"
        unfolding startswith_def by (metis append_Nil append_take_drop_id)
      then show ?thesis by blast
    next
      case 2
      with Cons.IH obtain p q where "cs = p @ sub @ q" by blast
      then have "c # cs = (c # p) @ sub @ q" by simp
      then show ?thesis by blast
    qed
  qed
next
  assume "\<exists>p q. s = p @ sub @ q"
  then show "contains sub s" using contains_middle by blast
qed

lemma contains_wrap_iff: "contains ''::'' (''['' @ v @ '']'') \<longleftrightarrow> contains ''::'' v"
proof
  assume "contains ''::'' (''['' @ v @ '']'')"
  then show "contains ''::'' v" using no_colons_wrap [of v] by blast
next
  assume "contains ''::'' v"
  then obtain p q where "v = p @ ''::'' @ q" unfolding contains_iff by blast
  then have "''['' @ v @ '']'' = (''['' @ p) @ ''::'' @ (q @ '']'')" by simp
  then show "contains ''::'' (''['' @ v @ '']'')" unfolding contains_iff by blast
qed

lemma joined_colons:
  "contains ''::'' (filter (\<lambda>d. d \<noteq> CHR '' '') u)
     \<longleftrightarrow> (\<exists>a k b. u = a @ CHR '':'' # replicate k (CHR '' '') @ CHR '':'' # b)"
proof
  assume "\<exists>a k b. u = a @ CHR '':'' # replicate k (CHR '' '') @ CHR '':'' # b"
  then obtain a k b where u: "u = a @ CHR '':'' # replicate k (CHR '' '') @ CHR '':'' # b"
    by blast
  have "filter (\<lambda>d. d \<noteq> CHR '' '') u
          = filter (\<lambda>d. d \<noteq> CHR '' '') a @ ''::'' @ filter (\<lambda>d. d \<noteq> CHR '' '') b"
    unfolding u by simp
  then show "contains ''::'' (filter (\<lambda>d. d \<noteq> CHR '' '') u)"
    by (simp only: contains_middle)
next
  assume "contains ''::'' (filter (\<lambda>d. d \<noteq> CHR '' '') u)"
  then show "\<exists>a k b. u = a @ CHR '':'' # replicate k (CHR '' '') @ CHR '':'' # b"
  proof (induction u)
    case Nil
    then show ?case by simp
  next
    case (Cons c cs)
    show ?case
    proof (cases "contains ''::'' (filter (\<lambda>d. d \<noteq> CHR '' '') cs)")
      case True
      with Cons.IH obtain a k b where
        "cs = a @ CHR '':'' # replicate k (CHR '' '') @ CHR '':'' # b" by blast
      then have "c # cs = (c # a) @ CHR '':'' # replicate k (CHR '' '') @ CHR '':'' # b"
        by simp
      then show ?thesis by blast
    next
      case False
      with Cons.prems have c: "c \<noteq> CHR '' ''"
        and st: "startswith (c # filter (\<lambda>d. d \<noteq> CHR '' '') cs) ''::''"
        by (auto split: if_splits)
      from st have cc: "c = CHR '':''" by (simp add: startswith_def)
      from st obtain ys where "filter (\<lambda>d. d \<noteq> CHR '' '') cs = CHR '':'' # ys"
        by (cases "filter (\<lambda>d. d \<noteq> CHR '' '') cs") (simp_all add: startswith_def)
      then obtain us vs where cs: "cs = us @ CHR '':'' # vs"
        and us: "\<forall>u \<in> set us. \<not> u \<noteq> CHR '' ''"
        unfolding filter_eq_Cons_iff by blast
      from us have "us = replicate (length us) (CHR '' '')"
        by (simp add: replicate_length_same)
      with cs cc have "c # cs = [] @ CHR '':'' # replicate (length us) (CHR '' '') @ CHR '':'' # vs"
        by simp
      then show ?thesis by blast
    qed
  qed
qed

lemma normalize_some:
  assumes "normalize_plc_name y = Some r"
  shows "\<not> falsy y"
    and "r = (let v = filter (\<lambda>d. d \<noteq> CHR '' '') (replace (strip (py_str y)) ''::'' '''')
              in if startswith v ''['' then v else ''['' @ v @ '']'')"
proof -
  show nf: "\<not> falsy y" using assms by (auto simp: normalize_plc_name_def)
  from normalize_result [OF nf] assms
  show "r = (let v = filter (\<lambda>d. d \<noteq> CHR '' '') (replace (strip (py_str y)) ''::'' '''')
              in if startswith v ''['' then v else ''['' @ v @ '']'')"
    by (simp add: replace_def replace_scan_filter Let_def)
qed

lemma normalize_some_shape:
  assumes "normalize_plc_name y = Some r"
  shows "startswith r ''[''" and "CHR '' '' \<notin> set r"
    and "contains ''::'' r
      \<longleftrightarrow> contains ''::'' (filter (\<lambda>d. d \<noteq> CHR '' '') (replace (strip (py_str y)) ''::'' ''''))"
proof -
  define v where "v = filter (\<lambda>d. d \<noteq> CHR '' '') (replace (strip (py_str y)) ''::'' '''')"
  from normalize_some(2) [OF assms]
  have r: "r = (if startswith v ''['' then v else ''['' @ v @ '']'')" by (simp add: v_def Let_def)
  have nosp: "CHR '' '' \<notin> set v" by (simp add: v_def)
  show "startswith r ''[''" by (simp add: r startswith_def)
  show "CHR '' '' \<notin> set r" using nosp by (simp add: r)
  show "contains ''::'' r
      \<longleftrightarrow> contains ''::'' (filter (\<lambda>d. d \<noteq> CHR '' '') (replace (strip (py_str y)) ''::'' ''''))"
    unfolding v_def [symmetric] using contains_wrap_iff [of v] by (simp add: r)
qed


section \<open>Claim C10: name normalisation\<close>

text \<open>
  C10. \<^verbatim>\<open>normalize_plc_name\<close> returns \<^verbatim>\<open>None\<close> for every falsy input. For every non-empty
  string the result holds no space character and starts with an opening bracket. The
  result holds two colons in a row exactly when the stripped input, its pairs of colons
  removed, still holds two colons with nothing but spaces between them: removing the
  spaces afterwards joins them. Normalising a result once more gives that result again
  exactly when it holds no two colons in a row and does not end in a whitespace
  character; the input is stripped before the pairs of colons are removed, so a
  whitespace character other than the space that stood before a final pair ends the
  result, and the second pass strips it. A \<^verbatim>\<open>None\<close> result is normalised to \<^verbatim>\<open>None\<close> again.
\<close>

theorem normalize_plc_name_props:
  "(falsy x \<longrightarrow> normalize_plc_name x = None) \<and>
   (s \<noteq> [] \<longrightarrow> (\<exists>r. normalize_plc_name (PStr s) = Some r \<and> CHR '' '' \<notin> set r
        \<and> startswith r ''['')) \<and>
   (normalize_plc_name y = Some r \<longrightarrow>
      (contains ''::'' r \<longleftrightarrow>
         (\<exists>a k b. replace (strip (py_str y)) ''::'' ''''
                    = a @ CHR '':'' # replicate k (CHR '' '') @ CHR '':'' # b)) \<and>
      (normalize_plc_name (as_pyval (normalize_plc_name y)) = normalize_plc_name y \<longleftrightarrow>
         \<not> contains ''::'' r \<and> \<not> isspace (last r))) \<and>
   (normalize_plc_name y = None \<longrightarrow>
      normalize_plc_name (as_pyval (normalize_plc_name y)) = normalize_plc_name y)"
proof (intro conjI impI)
  assume "falsy x"
  then show "normalize_plc_name x = None" by (simp add: normalize_plc_name_def)
next
  assume "s \<noteq> []"
  then show "\<exists>r. normalize_plc_name (PStr s) = Some r \<and> CHR '' '' \<notin> set r \<and> startswith r ''[''"
    by (rule normalize_str_shape)
next
  assume a: "normalize_plc_name y = Some r"
  from normalize_some_shape(3) [OF a]
  show "contains ''::'' r \<longleftrightarrow>
         (\<exists>a k b. replace (strip (py_str y)) ''::'' ''''
                    = a @ CHR '':'' # replicate k (CHR '' '') @ CHR '':'' # b)"
    by (simp only: joined_colons)
  from normalize_again_iff [OF normalize_some_shape(1,2) [OF a]]
  show "normalize_plc_name (as_pyval (normalize_plc_name y)) = normalize_plc_name y \<longleftrightarrow>
         \<not> contains ''::'' r \<and> \<not> isspace (last r)"
    by (simp add: a as_pyval_def)
next
  assume "normalize_plc_name y = None"
  then show "normalize_plc_name (as_pyval (normalize_plc_name y)) = normalize_plc_name y"
    by (simp add: as_pyval_def normalize_plc_name_def)
qed

text \<open>
  At concrete inputs: \<open>0\<close>; a name with a space, which is normalised to a fixed point;
  two colons around a space; a bracketed name that ends in a no-break space and a pair
  of colons.
\<close>

theorem normalize_plc_name_props_witness:
  "falsy (PInt 0) \<and> normalize_plc_name (PInt 0) = None \<and>
   normalize_plc_name (as_pyval (normalize_plc_name (PInt 0))) = normalize_plc_name (PInt 0) \<and>
   normalize_plc_name (PStr ''P1 NH3'') = Some ''[P1NH3]'' \<and>
   \<not> contains ''::'' ''[P1NH3]'' \<and> \<not> isspace (last ''[P1NH3]'') \<and>
   normalize_plc_name (as_pyval (normalize_plc_name (PStr ''P1 NH3'')))
     = normalize_plc_name (PStr ''P1 NH3'') \<and>
   normalize_plc_name (PStr '': :'') = Some ''[::]'' \<and>
   replace (strip (py_str (PStr '': :''))) ''::'' ''''
     = [] @ CHR '':'' # replicate 1 (CHR '' '') @ CHR '':'' # [] \<and>
   contains ''::'' ''[::]'' \<and>
   normalize_plc_name (as_pyval (normalize_plc_name (PStr '': :'')))
     \<noteq> normalize_plc_name (PStr '': :'') \<and>
   normalize_plc_name (PStr [CHR ''['', CHR ''a'', CHR 0xA0, CHR '':'', CHR '':''])
     = Some [CHR ''['', CHR ''a'', CHR 0xA0] \<and>
   isspace (last [CHR ''['', CHR ''a'', CHR 0xA0]) \<and>
   normalize_plc_name (as_pyval
       (normalize_plc_name (PStr [CHR ''['', CHR ''a'', CHR 0xA0, CHR '':'', CHR '':''])))
     \<noteq> normalize_plc_name (PStr [CHR ''['', CHR ''a'', CHR 0xA0, CHR '':'', CHR '':''])"
proof -
  let ?nb = "[CHR ''['', CHR ''a'', CHR 0xA0, CHR '':'', CHR '':'']"
  have z: "falsy (PInt 0)" by simp
  have n1: "normalize_plc_name (PStr ''P1 NH3'') = Some ''[P1NH3]''" by code_simp
  have c1: "\<not> contains ''::'' ''[P1NH3]''" "\<not> isspace (last ''[P1NH3]'')" by code_simp+
  have n2: "normalize_plc_name (PStr '': :'') = Some ''[::]''" by code_simp
  have d2: "replace (strip (py_str (PStr '': :''))) ''::'' ''''
     = [] @ CHR '':'' # replicate 1 (CHR '' '') @ CHR '':'' # []" by code_simp
  have n3: "normalize_plc_name (PStr ?nb) = Some [CHR ''['', CHR ''a'', CHR 0xA0]" by code_simp
  have c3: "isspace (last [CHR ''['', CHR ''a'', CHR 0xA0])" by code_simp
  from normalize_plc_name_props [of "PInt 0" "''x''" "PInt 0" "''x''"] z
  have a0: "normalize_plc_name (PInt 0) = None"
    "normalize_plc_name (as_pyval (normalize_plc_name (PInt 0))) = normalize_plc_name (PInt 0)"
    by simp_all
  from normalize_plc_name_props [of "PInt 0" "''x''" "PStr ''P1 NH3''" "''[P1NH3]''"] n1 c1
  have a1: "normalize_plc_name (as_pyval (normalize_plc_name (PStr ''P1 NH3'')))
     = normalize_plc_name (PStr ''P1 NH3'')" by blast
  from normalize_plc_name_props [of "PInt 0" "''x''" "PStr '': :''" "''[::]''"] n2 d2
  have a2: "contains ''::'' ''[::]''"
    and b2: "normalize_plc_name (as_pyval (normalize_plc_name (PStr '': :'')))
     \<noteq> normalize_plc_name (PStr '': :'')" by blast+
  from normalize_plc_name_props [of "PInt 0" "''x''" "PStr ?nb" "[CHR ''['', CHR ''a'', CHR 0xA0]"] n3 c3
  have a3: "normalize_plc_name (as_pyval (normalize_plc_name (PStr ?nb)))
     \<noteq> normalize_plc_name (PStr ?nb)" by blast
  from z a0 n1 c1 a1 n2 d2 a2 b2 n3 c3 a3 show ?thesis by blast
qed

text \<open>
  C10 as stated fails at two inputs. Two colons around a space are normalised to a name
  that holds two colons in a row, and that name is normalised to another one. The second
  input is normalised to a name without colons that ends in a no-break space, and that
  name is normalised to a shorter one.
\<close>

theorem normalize_plc_name_counterexample:
  "normalize_plc_name (PStr '': :'') = Some ''[::]'' \<and> contains ''::'' ''[::]'' \<and>
   normalize_plc_name (as_pyval (normalize_plc_name (PStr '': :''))) = Some ''[]'' \<and>
   normalize_plc_name (as_pyval (normalize_plc_name (PStr '': :''))) \<noteq> normalize_plc_name (PStr '': :'') \<and>
   normalize_plc_name (PStr [CHR ''['', CHR ''a'', CHR 0xA0, CHR '':'', CHR '':''])
     = Some [CHR ''['', CHR ''a'', CHR 0xA0] \<and>
   normalize_plc_name (PStr [CHR ''['', CHR ''a'', CHR 0xA0]) = Some ''[a''"
  by code_simp


section \<open>Claim C3: device names in the registry resolvers\<close>

text \<open>
  C3. A device configured by \<^verbatim>\<open>PLC_M1_PLC_TYPE=MICROLOGIX\<close> and \<^verbatim>\<open>PLC_M1_PLC_IP\<close>. The call
  \<^verbatim>\<open>replace("PLC_", "")\<close> removes every \<^verbatim>\<open>PLC_\<close> of the key, the one before \<^verbatim>\<open>TYPE\<close>
  included, so both resolvers compute the raw name \<^verbatim>\<open>M1\<close> for a MICROLOGIX device as
  they do for a device of any other type. With the IP under \<^verbatim>\<open>PLC_M1_PLC_IP\<close> only, the
  device is skipped and the registry is empty; with \<^verbatim>\<open>PLC_M1_IP\<close> set as well, the device
  is registered as \<open>[M1]\<close> with that address, and not as \<open>[M1_PLC]\<close>. The name of a
  MICROLOGIX device whose key does not repeat \<^verbatim>\<open>PLC_\<close> is kept whole, and a device of
  another type configured by \<^verbatim>\<open>PLC_P1_PLC_TYPE\<close> is registered as \<open>[P1]\<close> with the address
  found under \<^verbatim>\<open>PLC_P1_IP\<close>.
\<close>

theorem micrologix_plc_suffix_lost:
  "load_plc_config_from_env
     [(''PLC_M1_PLC_TYPE'', ''MICROLOGIX''), (''PLC_M1_PLC_IP'', ''192.168.1.20'')] = [] \<and>
   load_plc_config_from_env
     [(''PLC_M1_PLC_TYPE'', ''MICROLOGIX''), (''PLC_M1_PLC_IP'', ''192.168.1.20''),
      (''PLC_M1_IP'', ''192.168.1.99'')]
     = [(Some ''[M1]'', \<lparr>plc_type = ''MICROLOGIX'', plc_ip = ''192.168.1.99''\<rparr>)] \<and>
   debug_load_plc_config_from_env
     [(''PLC_M1_PLC_TYPE'', ''MICROLOGIX''), (''PLC_M1_PLC_IP'', ''192.168.1.20'')] = [] \<and>
   debug_load_plc_config_from_env
     [(''PLC_M1_PLC_TYPE'', ''MICROLOGIX''), (''PLC_M1_PLC_IP'', ''192.168.1.20''),
      (''PLC_M1_IP'', ''192.168.1.99'')]
     = [(''[M1]'', \<lparr>plc_type = ''MICROLOGIX'', plc_ip = ''192.168.1.99''\<rparr>)] \<and>
   load_plc_config_from_env
     [(''PLC_M1_TYPE'', ''MICROLOGIX''), (''PLC_M1_IP'', ''192.168.1.99'')]
     = [(Some ''[M1]'', \<lparr>plc_type = ''MICROLOGIX'', plc_ip = ''192.168.1.99''\<rparr>)] \<and>
   load_plc_config_from_env
     [(''PLC_P1_PLC_TYPE'', ''Compact''), (''PLC_P1_PLC_IP'', ''192.168.1.20''),
      (''PLC_P1_IP'', ''192.168.1.99'')]
     = [(Some ''[P1]'', \<lparr>plc_type = ''COMPACT'', plc_ip = ''192.168.1.99''\<rparr>)]"
  by code_simp


section \<open>Claims C4 and C5: devices that fault or do not answer\<close>

lemma micro_loop_all_raise:
  "\<forall>n < left. raises (rd (a + n)) \<and> lg (a + n) \<Longrightarrow>
     micro_loop lg rd tags a left = (Returns None, left)"
proof (induction left arbitrary: a)
  case 0
  then show ?case by simp
next
  case (Suc left)
  from Suc.prems have "raises (rd (a + 0)) \<and> lg (a + 0)" by blast
  then obtain e where e: "rd a = Raises e" and l: "lg a"
    by (cases "rd a") (auto simp: raises_def)
  have "\<forall>n < left. raises (rd (Suc a + n)) \<and> lg (Suc a + n)"
  proof (intro allI impI)
    fix n assume "n < left"
    then have "Suc n < Suc left" by simp
    with Suc.prems have "raises (rd (a + Suc n)) \<and> lg (a + Suc n)" by blast
    then show "raises (rd (Suc a + n)) \<and> lg (Suc a + n)" by simp
  qed
  then have "micro_loop lg rd tags (Suc a) left = (Returns None, left)" by (rule Suc.IH)
  with e l show ?case by simp
qed

lemma logix_loop_all_raise:
  "\<forall>n < left. raises (rd (a + n)) \<and> lg (a + n) \<Longrightarrow>
     logix_loop lg rd tags a left = (Returns None, left)"
proof (induction left arbitrary: a)
  case 0
  then show ?case by simp
next
  case (Suc left)
  from Suc.prems have "raises (rd (a + 0)) \<and> lg (a + 0)" by blast
  then obtain e where e: "rd a = Raises e" and l: "lg a"
    by (cases "rd a") (auto simp: raises_def)
  have "\<forall>n < left. raises (rd (Suc a + n)) \<and> lg (Suc a + n)"
  proof (intro allI impI)
    fix n assume "n < left"
    then have "Suc n < Suc left" by simp
    with Suc.prems have "raises (rd (a + Suc n)) \<and> lg (a + Suc n)" by blast
    then show "raises (rd (Suc a + n)) \<and> lg (Suc a + n)" by simp
  qed
  then have "logix_loop lg rd tags (Suc a) left = (Returns None, left)" by (rule Suc.IH)
  with e l show ?case by simp
qed

lemma read_micro_logix_all_raise:
  assumes "\<forall>n < retries. raises (rd n) \<and> lg n"
  shows "read_micro_logix lg rd tags retries = (Returns (no_response tags), retries)"
  using micro_loop_all_raise [of retries rd 0 lg tags] assms by (simp add: read_micro_logix_def)

lemma read_logix_all_raise:
  assumes "\<forall>n < retries. raises (rd b n) \<and> lg n"
  shows "read_logix lg rd tags b retries = (Returns (no_response tags), retries)"
  using logix_loop_all_raise [of retries "rd b" 0 lg tags] assms by (simp add: read_logix_def)

lemma stamp_no_response:
  "map (stamp name) (no_response tags) = map (placeholder name ''NO RESPONSE'') tags"
  by (simp add: no_response_def stamp_def placeholder_def)

lemma worker_plc: "r \<in> set (fst (plc_worker name info tags io)) \<Longrightarrow> res_plc r = name"
  by (auto simp: plc_worker_def stamp_def split: if_splits prod.splits outcome.splits)

lemma offline_worker:
  "\<not> ping (ping_run io) \<Longrightarrow>
     plc_worker name info tags io = (map (placeholder name ''OFFLINE'') tags, 0, None)"
  by (simp add: plc_worker_def placeholder_def)

lemma set_interleave: "set (interleave sched buckets) = set (concat buckets)"
proof (induction sched buckets rule: interleave.induct)
  case (1 buckets)
  then show ?case by simp
next
  case (2 i sched buckets)
  show ?case
  proof (cases "i < length buckets")
    case False
    with 2 show ?thesis by simp
  next
    case True
    show ?thesis
    proof (cases "buckets ! i")
      case Nil
      with True 2 show ?thesis by simp
    next
      case (Cons x xs)
      have b: "buckets = take i buckets @ (x # xs) # drop (Suc i) buckets"
        using True Cons by (metis id_take_nth_drop)
      have u: "buckets[i := xs] = take i buckets @ xs # drop (Suc i) buckets"
        using True by (simp add: upd_conv_take_nth_drop)
      have "set (concat buckets) = insert x (set (concat (buckets[i := xs])))"
        by (subst b, subst u) auto
      with 2 True Cons show ?thesis by simp
    qed
  qed
qed

lemma spawn_workers_mem:
  assumes "w \<in> set (spawn_workers plcs tag_map dev)"
  shows "\<exists>name info tags. (name, info) \<in> set plcs \<and> tag_map name = Some tags
           \<and> w = plc_worker name info tags (dev name)"
proof -
  define f where "f = (\<lambda>(name, info).
     case tag_map name of None \<Rightarrow> []
     | Some tag_list \<Rightarrow> [plc_worker name info tag_list (dev name)])"
  have "spawn_workers plcs tag_map dev = concat (map f plcs)"
    by (simp add: spawn_workers_def f_def)
  with assms obtain p where p: "p \<in> set plcs" and w: "w \<in> set (f p)"
    by auto
  obtain name info where pe: "p = (name, info)" by (cases p)
  show ?thesis
  proof (cases "tag_map name")
    case None
    with w pe show ?thesis by (simp add: f_def)
  next
    case (Some tags)
    with w pe have "w = plc_worker name info tags (dev name)" by (simp add: f_def)
    with p pe Some show ?thesis by blast
  qed
qed

lemma gather_origin:
  assumes "r \<in> set (gather plcs tag_map io)"
  shows "\<exists>info tags. (res_plc r, info) \<in> set plcs \<and> tag_map (res_plc r) = Some tags
           \<and> r \<in> set (fst (plc_worker (res_plc r) info tags (devices io (res_plc r))))"
proof -
  from assms obtain w where w: "w \<in> set (spawn_workers plcs tag_map (devices io))"
      and r: "r \<in> set (fst w)"
    by (auto simp: gather_def set_interleave)
  from spawn_workers_mem [OF w] obtain name info tags where
    a: "(name, info) \<in> set plcs" "tag_map name = Some tags"
       "w = plc_worker name info tags (devices io name)"
    by blast
  from r a(3) have "res_plc r = name" by (simp add: worker_plc)
  with a r show ?thesis by blast
qed

text \<open>
  C4. The handler of a failed attempt calls \<^verbatim>\<open>log\<close> before the next attempt. When every
  one of the \<open>retries\<close> attempts raises and every one of these calls returns, either
  adapter returns, after exactly \<open>retries\<close> attempts, one result per tag with the status
  \<^verbatim>\<open>NO RESPONSE\<close>, written with a space, and no value. A worker whose device answers the
  ping, whose reads all raise and whose calls of \<^verbatim>\<open>log\<close> return, returns after the three
  attempts of the default that placeholder for each of its tags, stamped with the device
  name, and no exception leaves it.
\<close>

theorem no_response_after_retries:
  "((\<forall>n < retries. raises (rd n) \<and> lg n) \<longrightarrow>
      read_micro_logix lg rd tag_list retries = (Returns (no_response tag_list), retries)) \<and>
   ((\<forall>n < retries. raises (rdl b n) \<and> lg n) \<longrightarrow>
      read_logix lg rdl tag_list b retries = (Returns (no_response tag_list), retries)) \<and>
   (ping (ping_run io) \<and> (\<forall>n < 3. log_ok io n) \<and>
    (if plc_type info = ''MICROLOGIX'' then \<forall>n < 3. raises (slc_read io n)
     else \<forall>n < 3. raises (logix_read io (plc_type info = ''MICRO800'') n)) \<longrightarrow>
      plc_worker name info tag_list io
        = (map (placeholder name ''NO RESPONSE'') tag_list, 3, None))"
proof (intro conjI impI)
  assume "\<forall>n < retries. raises (rd n) \<and> lg n"
  then show "read_micro_logix lg rd tag_list retries = (Returns (no_response tag_list), retries)"
    by (rule read_micro_logix_all_raise)
next
  assume "\<forall>n < retries. raises (rdl b n) \<and> lg n"
  then show "read_logix lg rdl tag_list b retries = (Returns (no_response tag_list), retries)"
    by (rule read_logix_all_raise)
next
  assume a: "ping (ping_run io) \<and> (\<forall>n < 3. log_ok io n) \<and>
    (if plc_type info = ''MICROLOGIX'' then \<forall>n < 3. raises (slc_read io n)
     else \<forall>n < 3. raises (logix_read io (plc_type info = ''MICRO800'') n))"
  show "plc_worker name info tag_list io
          = (map (placeholder name ''NO RESPONSE'') tag_list, 3, None)"
  proof (cases "plc_type info = ''MICROLOGIX''")
    case True
    with a have "\<forall>n < 3. raises (slc_read io n) \<and> log_ok io n" by simp
    then have "read_micro_logix (log_ok io) (slc_read io) tag_list 3
                 = (Returns (no_response tag_list), 3)"
      by (rule read_micro_logix_all_raise)
    with a True show ?thesis
      by (simp add: plc_worker_def default_retries_def stamp_no_response)
  next
    case False
    with a have "\<forall>n < 3. raises (logix_read io (plc_type info = ''MICRO800'') n) \<and> log_ok io n"
      by simp
    then have "read_logix (log_ok io) (logix_read io) tag_list (plc_type info = ''MICRO800'') 3
                 = (Returns (no_response tag_list), 3)"
      by (rule read_logix_all_raise)
    with a False show ?thesis
      by (simp add: plc_worker_def default_retries_def stamp_no_response)
  qed
qed

text \<open>Two retries on the MicroLogix adapter and on the Logix adapter, and worker \<open>[B]\<close> on
  a device that pings and then times out on every read.\<close>

theorem no_response_after_retries_witness:
  "list_all (\<lambda>n. raises (logix_read dev_mute False n) \<and> log_ok dev_mute n) [0, 1, 2] \<and>
   read_micro_logix (\<lambda>n. True) (\<lambda>n. Raises ''timeout'') [tag_a1, tag_a2] 2
     = (Returns (no_response [tag_a1, tag_a2]), 2) \<and>
   read_logix (\<lambda>n. True) (\<lambda>b n. Raises ''timeout'') [tag_b1] False 2
     = (Returns (no_response [tag_b1]), 2) \<and>
   ping (ping_run dev_mute) \<and>
   plc_worker (Some ''[B]'') \<lparr>plc_type = ''COMPACT'', plc_ip = ''192.168.1.10''\<rparr> [tag_b1]
       dev_mute
     = ([\<lparr>res_plc = Some ''[B]'', res_value = PNone, res_status = ''NO RESPONSE'',
          res_tag = tag_b1\<rparr>], 3, None)"
proof -
  have p: "ping (ping_run dev_mute)"
    unfolding dev_mute_def by code_simp
  have r: "\<forall>n < 3. raises (logix_read dev_mute False n)" "\<forall>n < 3. log_ok dev_mute n"
    by (simp_all add: dev_mute_def raises_def)
  from no_response_after_retries [of 2 "\<lambda>n. Raises ''timeout''" "\<lambda>n. True" "[tag_a1, tag_a2]"
      "\<lambda>b n. Raises ''timeout''" False dev_mute
      "\<lparr>plc_type = ''COMPACT'', plc_ip = ''192.168.1.10''\<rparr>" "Some ''[B]''"] p r
  have a: "read_micro_logix (\<lambda>n. True) (\<lambda>n. Raises ''timeout'') [tag_a1, tag_a2] 2
          = (Returns (no_response [tag_a1, tag_a2]), 2)"
    by (simp add: raises_def)
  from no_response_after_retries [of 2 "\<lambda>n. Raises ''timeout''" "\<lambda>n. True" "[tag_b1]"
      "\<lambda>b n. Raises ''timeout''" False dev_mute
      "\<lparr>plc_type = ''COMPACT'', plc_ip = ''192.168.1.10''\<rparr>" "Some ''[B]''"] p r
  have b: "read_logix (\<lambda>n. True) (\<lambda>b n. Raises ''timeout'') [tag_b1] False 2
          = (Returns (no_response [tag_b1]), 2)"
    and c: "plc_worker (Some ''[B]'') \<lparr>plc_type = ''COMPACT'', plc_ip = ''192.168.1.10''\<rparr>
           [tag_b1] dev_mute
          = (map (placeholder (Some ''[B]'') ''NO RESPONSE'') [tag_b1], 3, None)"
    by (simp_all add: raises_def)
  from a b c p r show ?thesis by (simp add: placeholder_def)
qed

text \<open>
  C4 as stated fails on the worker of \<open>[B]\<close>. The status of its placeholder is
  \<^verbatim>\<open>NO RESPONSE\<close>, which is not \<^verbatim>\<open>NO_RESPONSE\<close>. And where the standard output refuses the
  arrow of the retry message, \<^verbatim>\<open>log\<close> raises inside the handler: the worker makes one
  attempt, appends no result and ends with the exception.
\<close>

theorem no_response_after_retries_counterexample:
  "plc_worker (Some ''[B]'') \<lparr>plc_type = ''COMPACT'', plc_ip = ''192.168.1.10''\<rparr> [tag_b1]
       dev_mute
     = ([\<lparr>res_plc = Some ''[B]'', res_value = PNone, res_status = ''NO RESPONSE'',
          res_tag = tag_b1\<rparr>], 3, None) \<and>
   ''NO RESPONSE'' \<noteq> ''NO_RESPONSE'' \<and>
   plc_worker (Some ''[B]'') \<lparr>plc_type = ''COMPACT'', plc_ip = ''192.168.1.10''\<rparr> [tag_b1]
       (dev_mute\<lparr>log_ok := (\<lambda>n. False)\<rparr>)
     = ([], 1, Some ''UnicodeEncodeError'')"
  unfolding dev_mute_def by code_simp

text \<open>
  C5. A worker whose device fails the probe returns, for every tag of its list and in
  the list's order, a result with the status \<^verbatim>\<open>OFFLINE\<close> and no value, after no read
  attempt at all and with no exception; and in the results gathered in a cycle, every
  result of a device whose probe fails has the status \<^verbatim>\<open>OFFLINE\<close> and no value.
\<close>

theorem offline_device:
  assumes "\<not> ping (ping_run (devices io name))"
  shows "plc_worker name info tag_list (devices io name)
           = (map (placeholder name ''OFFLINE'') tag_list, 0, None) \<and>
         (\<forall>r \<in> set (gather plcs tag_map io). res_plc r = name \<longrightarrow>
              res_status r = ''OFFLINE'' \<and> res_value r = PNone)"
proof (intro conjI ballI impI)
  show "plc_worker name info tag_list (devices io name)
           = (map (placeholder name ''OFFLINE'') tag_list, 0, None)"
    using assms by (rule offline_worker)
next
  fix r assume r: "r \<in> set (gather plcs tag_map io)" and n: "res_plc r = name"
  from gather_origin [OF r] n obtain info' tags where
    "r \<in> set (fst (plc_worker name info' tags (devices io name)))" by blast
  then have "r \<in> set (map (placeholder name ''OFFLINE'') tags)"
    using offline_worker [OF assms] by simp
  then show "res_status r = ''OFFLINE''" and "res_value r = PNone"
    by (auto simp: placeholder_def)
qed

text \<open>Device \<open>[B]\<close> of the sample cycle does not answer the ping.\<close>

theorem offline_device_witness:
  "\<not> ping (ping_run (devices noon_cycle (Some ''[B]''))) \<and>
   plc_worker (Some ''[B]'') \<lparr>plc_type = ''COMPACT'', plc_ip = ''192.168.1.10''\<rparr> [tag_b1]
       (devices noon_cycle (Some ''[B]''))
     = ([\<lparr>res_plc = Some ''[B]'', res_value = PNone, res_status = ''OFFLINE'',
          res_tag = tag_b1\<rparr>], 0, None) \<and>
   list_all (\<lambda>r. res_status r = ''OFFLINE'' \<and> res_value r = PNone)
     (filter (\<lambda>r. res_plc r = Some ''[B]'') (gather plant_plcs plant_tags noon_cycle)) \<and>
   length (filter (\<lambda>r. res_plc r = Some ''[B]'') (gather plant_plcs plant_tags noon_cycle)) = 1"
proof -
  have p: "\<not> ping (ping_run (devices noon_cycle (Some ''[B]'')))"
    unfolding noon_cycle_def dev_offline_def dev_up_def by code_simp
  have n: "length (filter (\<lambda>r. res_plc r = Some ''[B]'')
             (gather plant_plcs plant_tags noon_cycle)) = 1"
    unfolding noon_cycle_def dev_offline_def dev_up_def plant_plcs_def plant_tags_def
    by code_simp
  from offline_device [OF p, of "\<lparr>plc_type = ''COMPACT'', plc_ip = ''192.168.1.10''\<rparr>"
      "[tag_b1]" plant_plcs plant_tags]
  show ?thesis using p n by (simp add: placeholder_def list_all_iff)
qed


section \<open>Workers, gathering and persisting: shared facts\<close>

lemma mset_interleave: "mset (interleave sched buckets) = mset (concat buckets)"
proof (induction sched buckets rule: interleave.induct)
  case (1 buckets)
  then show ?case by simp
next
  case (2 i sched buckets)
  show ?case
  proof (cases "i < length buckets")
    case False
    with 2 show ?thesis by simp
  next
    case True
    show ?thesis
    proof (cases "buckets ! i")
      case Nil
      with True 2 show ?thesis by simp
    next
      case (Cons x xs)
      have b: "buckets = take i buckets @ (x # xs) # drop (Suc i) buckets"
        using True Cons by (metis id_take_nth_drop)
      have u: "buckets[i := xs] = take i buckets @ xs # drop (Suc i) buckets"
        using True by (simp add: upd_conv_take_nth_drop)
      have "mset (concat buckets) = add_mset x (mset (concat (buckets[i := xs])))"
        by (subst b, subst u) simp
      with 2 True Cons show ?thesis by simp
    qed
  qed
qed

lemma micro_loop_some:
  "micro_loop lg rd tags a left = (Returns (Some res), n) \<Longrightarrow>
     \<exists>m < left. \<exists>resp. rd (a + m) = Returns resp \<and> res = micro_results resp tags"
proof (induction left arbitrary: a n)
  case 0
  then show ?case by simp
next
  case (Suc left)
  show ?case
  proof (cases "rd a")
    case (Returns resp)
    with Suc.prems have "res = micro_results resp tags" by simp
    with Returns have "rd (a + 0) = Returns resp \<and> res = micro_results resp tags" by simp
    then show ?thesis by blast
  next
    case (Raises e)
    with Suc.prems obtain n' where "micro_loop lg rd tags (Suc a) left = (Returns (Some res), n')"
      by (auto split: prod.splits if_splits)
    from Suc.IH [OF this] obtain m resp where
      "m < left" "rd (Suc a + m) = Returns resp" "res = micro_results resp tags" by blast
    then have "Suc m < Suc left \<and> rd (a + Suc m) = Returns resp \<and> res = micro_results resp tags"
      by simp
    then show ?thesis by blast
  qed
qed

lemma logix_loop_some:
  "logix_loop lg rd tags a left = (Returns (Some res), n) \<Longrightarrow>
     \<exists>m < left. \<exists>resp. rd (a + m) = Returns resp \<and> res = logix_results resp tags"
proof (induction left arbitrary: a n)
  case 0
  then show ?case by simp
next
  case (Suc left)
  show ?case
  proof (cases "rd a")
    case (Returns resp)
    with Suc.prems have "res = logix_results resp tags" by simp
    with Returns have "rd (a + 0) = Returns resp \<and> res = logix_results resp tags" by simp
    then show ?thesis by blast
  next
    case (Raises e)
    with Suc.prems obtain n' where "logix_loop lg rd tags (Suc a) left = (Returns (Some res), n')"
      by (auto split: prod.splits if_splits)
    from Suc.IH [OF this] obtain m resp where
      "m < left" "rd (Suc a + m) = Returns resp" "res = logix_results resp tags" by blast
    then have "Suc m < Suc left \<and> rd (a + Suc m) = Returns resp \<and> res = logix_results resp tags"
      by simp
    then show ?thesis by blast
  qed
qed

lemma micro_loop_returns:
  "\<forall>n < left. lg (a + n) \<Longrightarrow> \<exists>v. fst (micro_loop lg rd tags a left) = Returns v"
proof (induction left arbitrary: a)
  case 0
  then show ?case by simp
next
  case (Suc left)
  from Suc.prems have l: "lg (a + 0)" by blast
  have "\<forall>n < left. lg (Suc a + n)"
  proof (intro allI impI)
    fix n assume "n < left"
    then have "Suc n < Suc left" by simp
    with Suc.prems have "lg (a + Suc n)" by blast
    then show "lg (Suc a + n)" by simp
  qed
  from Suc.IH [OF this] obtain v where "fst (micro_loop lg rd tags (Suc a) left) = Returns v"
    by blast
  with l show ?case by (cases "rd a") (simp_all add: case_prod_beta)
qed

lemma logix_loop_returns:
  "\<forall>n < left. lg (a + n) \<Longrightarrow> \<exists>v. fst (logix_loop lg rd tags a left) = Returns v"
proof (induction left arbitrary: a)
  case 0
  then show ?case by simp
next
  case (Suc left)
  from Suc.prems have l: "lg (a + 0)" by blast
  have "\<forall>n < left. lg (Suc a + n)"
  proof (intro allI impI)
    fix n assume "n < left"
    then have "Suc n < Suc left" by simp
    with Suc.prems have "lg (a + Suc n)" by blast
    then show "lg (Suc a + n)" by simp
  qed
  from Suc.IH [OF this] obtain v where "fst (logix_loop lg rd tags (Suc a) left) = Returns v"
    by blast
  with l show ?case by (cases "rd a") (simp_all add: case_prod_beta)
qed

lemma map_snd_zip_same: "length xs = length ys \<Longrightarrow> map snd (zip xs ys) = ys"
  by (simp add: map_snd_zip)

lemma micro_results_tags:
  assumes "case resp of SlcOne r \<Rightarrow> length tags = 1 | SlcMany rs \<Rightarrow> length rs = length tags"
  shows "map rd_tag (micro_results resp tags) = tags"
proof (cases resp)
  case (SlcOne r)
  with assms obtain t where "tags = [t]" by (cases tags) auto
  with SlcOne show ?thesis by (simp add: micro_results_def)
next
  case (SlcMany rs)
  with assms have "length rs = length tags" by simp
  then have "map snd (zip rs tags) = tags" by (rule map_snd_zip_same)
  moreover have "map rd_tag (micro_results resp tags) = map snd (zip rs tags)"
    using SlcMany by (simp add: micro_results_def case_prod_beta)
  ultimately show ?thesis by simp
qed

lemma logix_results_tags:
  assumes "length rs = length tags"
  shows "map rd_tag (logix_results rs tags) = tags"
proof -
  have "map rd_tag (logix_results rs tags) = map snd (zip rs tags)"
    by (simp add: logix_results_def case_prod_beta)
  with assms show ?thesis by (simp add: map_snd_zip_same)
qed

lemma no_response_tags: "map rd_tag (no_response tags) = tags"
  by (simp add: no_response_def comp_def)

lemma read_micro_logix_tags:
  assumes "\<forall>n < retries. case rd n of Raises e \<Rightarrow> True
             | Returns (SlcOne r) \<Rightarrow> length tags = 1
             | Returns (SlcMany rs) \<Rightarrow> length rs = length tags"
    and "\<forall>n < retries. lg n"
  shows "\<exists>rs. fst (read_micro_logix lg rd tags retries) = Returns rs \<and> map rd_tag rs = tags"
proof -
  from micro_loop_returns [of retries lg 0 rd tags] assms(2)
  obtain v where v: "fst (micro_loop lg rd tags 0 retries) = Returns v" by auto
  obtain n where p: "micro_loop lg rd tags 0 retries = (Returns v, n)"
    using v by (cases "micro_loop lg rd tags 0 retries") simp
  show ?thesis
  proof (cases v)
    case None
    with p show ?thesis by (simp add: read_micro_logix_def no_response_tags)
  next
    case (Some results)
    with p micro_loop_some [of lg rd tags 0 retries results n] obtain m resp where
      m: "m < retries" "rd m = Returns resp" "results = micro_results resp tags" by auto
    from assms(1) m(1,2)
    have "case resp of SlcOne r \<Rightarrow> length tags = 1 | SlcMany rs \<Rightarrow> length rs = length tags"
      by (auto split: slc_reply.splits)
    then have "map rd_tag (micro_results resp tags) = tags" by (rule micro_results_tags)
    with p Some m(3) show ?thesis by (simp add: read_micro_logix_def)
  qed
qed

lemma read_logix_tags:
  assumes "\<forall>n < retries. case rd b n of Raises e \<Rightarrow> True
             | Returns rs \<Rightarrow> length rs = length tags"
    and "\<forall>n < retries. lg n"
  shows "\<exists>rs. fst (read_logix lg rd tags b retries) = Returns rs \<and> map rd_tag rs = tags"
proof -
  from logix_loop_returns [of retries lg 0 "rd b" tags] assms(2)
  obtain v where v: "fst (logix_loop lg (rd b) tags 0 retries) = Returns v" by auto
  obtain n where p: "logix_loop lg (rd b) tags 0 retries = (Returns v, n)"
    using v by (cases "logix_loop lg (rd b) tags 0 retries") simp
  show ?thesis
  proof (cases v)
    case None
    with p show ?thesis by (simp add: read_logix_def no_response_tags)
  next
    case (Some results)
    with p logix_loop_some [of lg "rd b" tags 0 retries results n] obtain m resp where
      m: "m < retries" "rd b m = Returns resp" "results = logix_results resp tags" by auto
    from assms(1) m(1,2) have "length resp = length tags" by auto
    then have "map rd_tag (logix_results resp tags) = tags" by (rule logix_results_tags)
    with p Some m(3) show ?thesis by (simp add: read_logix_def)
  qed
qed

lemma stamp_pairs:
  "map (\<lambda>r. (res_plc r, res_tag r)) (map (stamp name) rs) = map (Pair name) (map rd_tag rs)"
  by (induction rs) (simp_all add: stamp_def)

lemma worker_online:
  assumes "ping (ping_run io)"
    and "fst (if plc_type info = ''MICROLOGIX''
              then read_micro_logix (log_ok io) (slc_read io) tags default_retries
              else read_logix (log_ok io) (logix_read io) tags (plc_type info = ''MICRO800'')
                     default_retries) = Returns rs"
  shows "fst (plc_worker name info tags io) = map (stamp name) rs"
    and "snd (snd (plc_worker name info tags io)) = None"
  using assms by (auto simp: plc_worker_def split: prod.splits outcome.splits if_splits)

lemma worker_reads:
  assumes "answers_per_tag io info tags" and "logs_return io"
  shows "\<exists>rs. fst (if plc_type info = ''MICROLOGIX''
              then read_micro_logix (log_ok io) (slc_read io) tags default_retries
              else read_logix (log_ok io) (logix_read io) tags (plc_type info = ''MICRO800'')
                     default_retries) = Returns rs \<and> map rd_tag rs = tags"
proof -
  from assms(2) have lg: "\<forall>n < default_retries. log_ok io n"
    by (simp add: logs_return_def list_all_iff)
  show ?thesis
  proof (cases "plc_type info = ''MICROLOGIX''")
    case m: True
    with assms(1) have "\<forall>n < default_retries. case slc_read io n of Raises e \<Rightarrow> True
             | Returns (SlcOne r) \<Rightarrow> length tags = 1
             | Returns (SlcMany rs) \<Rightarrow> length rs = length tags"
      by (simp add: answers_per_tag_def list_all_iff)
    from read_micro_logix_tags [where rd = "slc_read io", OF this lg]
    show ?thesis by (simp only: if_P [OF m])
  next
    case m: False
    with assms(1) have "\<forall>n < default_retries.
        case logix_read io (plc_type info = ''MICRO800'') n of Raises e \<Rightarrow> True
             | Returns rs \<Rightarrow> length rs = length tags"
      by (simp add: answers_per_tag_def list_all_iff)
    from read_logix_tags [where rd = "logix_read io" and b = "plc_type info = ''MICRO800''",
        OF this lg]
    show ?thesis by (simp only: if_not_P [OF m])
  qed
qed

lemma worker_pairs:
  assumes "answers_per_tag io info tags" and "logs_return io"
  shows "map (\<lambda>r. (res_plc r, res_tag r)) (fst (plc_worker name info tags io))
           = map (Pair name) tags"
proof (cases "ping (ping_run io)")
  case False
  then show ?thesis by (simp add: plc_worker_def comp_def)
next
  case True
  from worker_reads [OF assms] obtain rs where
    rs: "fst (if plc_type info = ''MICROLOGIX''
              then read_micro_logix (log_ok io) (slc_read io) tags default_retries
              else read_logix (log_ok io) (logix_read io) tags (plc_type info = ''MICRO800'')
                     default_retries) = Returns rs"
    and tags: "map rd_tag rs = tags" by blast
  have "fst (plc_worker name info tags io) = map (stamp name) rs"
    using True rs by (rule worker_online(1))
  then have "map (\<lambda>r. (res_plc r, res_tag r)) (fst (plc_worker name info tags io))
               = map (\<lambda>r. (res_plc r, res_tag r)) (map (stamp name) rs)"
    by simp
  also have "\<dots> = map (Pair name) (map rd_tag rs)" by (rule stamp_pairs)
  also have "\<dots> = map (Pair name) tags" by (simp only: tags)
  finally show ?thesis .
qed

lemma worker_no_exception:
  assumes "answers_per_tag io info tags" and "logs_return io"
  shows "snd (snd (plc_worker name info tags io)) = None"
proof (cases "ping (ping_run io)")
  case False
  then show ?thesis by (simp add: plc_worker_def)
next
  case True
  from worker_reads [OF assms] obtain rs where
    "fst (if plc_type info = ''MICROLOGIX''
              then read_micro_logix (log_ok io) (slc_read io) tags default_retries
              else read_logix (log_ok io) (logix_read io) tags (plc_type info = ''MICRO800'')
                     default_retries) = Returns rs" by blast
  with True show ?thesis by (rule worker_online(2))
qed

lemma spawn_pairs:
  assumes "\<forall>(name, info) \<in> set plcs. \<forall>tags. tag_map name = Some tags \<longrightarrow>
             answers_per_tag (dev name) info tags \<and> logs_return (dev name)"
  shows "map (\<lambda>r. (res_plc r, res_tag r)) (concat (map fst (spawn_workers plcs tag_map dev)))
           = catalog_pairs plcs tag_map"
  using assms
proof (induction plcs)
  case Nil
  then show ?case by (simp add: spawn_workers_def catalog_pairs_def)
next
  case (Cons p plcs)
  obtain name info where p: "p = (name, info)" by (cases p)
  from Cons.prems have rest: "\<forall>(name, info) \<in> set plcs. \<forall>tags. tag_map name = Some tags \<longrightarrow>
             answers_per_tag (dev name) info tags \<and> logs_return (dev name)" by simp
  have sw: "spawn_workers (p # plcs) tag_map dev
        = (case tag_map name of None \<Rightarrow> []
           | Some tags \<Rightarrow> [plc_worker name info tags (dev name)]) @ spawn_workers plcs tag_map dev"
    by (simp add: spawn_workers_def p)
  have cp: "catalog_pairs (p # plcs) tag_map
        = (case tag_map name of None \<Rightarrow> [] | Some tags \<Rightarrow> map (Pair name) tags)
          @ catalog_pairs plcs tag_map"
    by (simp add: catalog_pairs_def p)
  show ?case
  proof (cases "tag_map name")
    case None
    with sw cp Cons.IH [OF rest] show ?thesis by simp
  next
    case (Some tags)
    with Cons.prems p have "answers_per_tag (dev name) info tags" "logs_return (dev name)"
      by simp_all
    then have "map (\<lambda>r. (res_plc r, res_tag r)) (fst (plc_worker name info tags (dev name)))
           = map (Pair name) tags" by (rule worker_pairs)
    with Some sw cp Cons.IH [OF rest] show ?thesis by simp
  qed
qed

lemma length_catalog_pairs: "length (catalog_pairs plcs tag_map) = catalog_count plcs tag_map"
proof (induction plcs)
  case Nil
  then show ?case by (simp add: catalog_pairs_def catalog_count_def)
next
  case (Cons p plcs)
  obtain name info where p: "p = (name, info)" by (cases p)
  have "length (catalog_pairs (p # plcs) tag_map)
          = (case tag_map name of None \<Rightarrow> 0 | Some tags \<Rightarrow> length tags)
            + length (catalog_pairs plcs tag_map)"
    by (simp add: catalog_pairs_def p split: option.splits)
  moreover have "catalog_count (p # plcs) tag_map
          = (case tag_map name of None \<Rightarrow> 0 | Some tags \<Rightarrow> length tags)
            + catalog_count plcs tag_map"
    by (simp add: catalog_count_def p)
  ultimately show ?case using Cons.IH by simp
qed

lemma gather_pairs:
  assumes "\<forall>(name, info) \<in> set plcs. \<forall>tags. tag_map name = Some tags \<longrightarrow>
             answers_per_tag (devices io name) info tags \<and> logs_return (devices io name)"
  shows "mset (map (\<lambda>r. (res_plc r, res_tag r)) (gather plcs tag_map io))
           = mset (catalog_pairs plcs tag_map)"
proof -
  have "mset (map (\<lambda>r. (res_plc r, res_tag r)) (gather plcs tag_map io))
      = image_mset (\<lambda>r. (res_plc r, res_tag r))
          (mset (concat (map fst (spawn_workers plcs tag_map (devices io)))))"
    by (simp add: gather_def mset_interleave)
  also have "\<dots> = mset (map (\<lambda>r. (res_plc r, res_tag r))
          (concat (map fst (spawn_workers plcs tag_map (devices io)))))"
    by simp
  also have "\<dots> = mset (catalog_pairs plcs tag_map)"
    using spawn_pairs [OF assms] by simp
  finally show ?thesis .
qed

lemma length_gather:
  assumes "\<forall>(name, info) \<in> set plcs. \<forall>tags. tag_map name = Some tags \<longrightarrow>
             answers_per_tag (devices io name) info tags \<and> logs_return (devices io name)"
  shows "length (gather plcs tag_map io) = catalog_count plcs tag_map"
proof -
  have "length (gather plcs tag_map io)
      = size (mset (map (\<lambda>r. (res_plc r, res_tag r)) (gather plcs tag_map io)))" by simp
  also have "\<dots> = size (mset (catalog_pairs plcs tag_map))"
    by (simp only: gather_pairs [OF assms])
  also have "\<dots> = catalog_count plcs tag_map" by (simp add: length_catalog_pairs)
  finally show ?thesis .
qed

lemma sql_row_pairs:
  "map (\<lambda>q. (PLC q, TagIndex q, TagName q)) (map (sql_row_of now) rs)
     = map (\<lambda>(n, t). (n, tag_index t, tag_name t)) (map (\<lambda>r. (res_plc r, res_tag r)) rs)"
  by (simp add: sql_row_of_def)

lemma cell_writes_quiet [simp]:
  "sql_rows (cell_writes_of ts r @ ev) = sql_rows ev"
  "cell_events (cell_writes_of ts r @ ev) = cell_writes_of ts r @ cell_events ev"
  "list_all loop_event (cell_writes_of ts r)"
  by (simp_all add: cell_writes_of_def)

lemma persist_loop_shape:
  "persist_loop ok now ts k rs = (ev, raised) \<Longrightarrow>
     \<exists>n \<le> length rs.
        sql_rows ev = map (sql_row_of now) (take n rs) \<and>
        cell_events ev = concat (map (cell_writes_of ts) (take (if raised then Suc n else n) rs)) \<and>
        list_all loop_event ev \<and>
        (raised \<longleftrightarrow> (\<exists>j < length rs. \<not> ok (k + j))) \<and>
        (\<not> raised \<longrightarrow> n = length rs)"
proof (induction rs arbitrary: k ev raised)
  case Nil
  then show ?case by auto
next
  case (Cons r rs)
  show ?case
  proof (cases "ok k")
    case False
    with Cons.prems have e: "ev = cell_writes_of ts r" "raised" by simp_all
    have "\<not> ok (k + 0)" using False by simp
    then have "\<exists>j < length (r # rs). \<not> ok (k + j)" by (intro exI [of _ 0]) simp
    with e have "0 \<le> length (r # rs) \<and>
        sql_rows ev = map (sql_row_of now) (take 0 (r # rs)) \<and>
        cell_events ev = concat (map (cell_writes_of ts) (take (if raised then Suc 0 else 0) (r # rs))) \<and>
        list_all loop_event ev \<and>
        (raised \<longleftrightarrow> (\<exists>j < length (r # rs). \<not> ok (k + j))) \<and>
        (\<not> raised \<longrightarrow> 0 = length (r # rs))"
      using cell_writes_quiet(2) [of ts r "[]"] cell_writes_quiet(1) [of ts r "[]"]
      by (simp add: cell_writes_of_def)
    then show ?thesis by blast
  next
    case True
    obtain ev' raised' where p: "persist_loop ok now ts (Suc k) rs = (ev', raised')"
      by (cases "persist_loop ok now ts (Suc k) rs")
    with Cons.prems True have e: "ev = cell_writes_of ts r @ Execute (sql_row_of now r) # ev'"
      "raised = raised'" by simp_all
    from Cons.IH [OF p] obtain n where n: "n \<le> length rs"
      "sql_rows ev' = map (sql_row_of now) (take n rs)"
      "cell_events ev' = concat (map (cell_writes_of ts) (take (if raised' then Suc n else n) rs))"
      "list_all loop_event ev'"
      "raised' \<longleftrightarrow> (\<exists>j < length rs. \<not> ok (Suc k + j))"
      "\<not> raised' \<longrightarrow> n = length rs" by blast
    have r: "(\<exists>j < length (r # rs). \<not> ok (k + j)) \<longleftrightarrow> (\<exists>j < length rs. \<not> ok (Suc k + j))"
    proof
      assume "\<exists>j < length (r # rs). \<not> ok (k + j)"
      then obtain j where j: "j < length (r # rs)" "\<not> ok (k + j)" by blast
      with True obtain i where "j = Suc i" by (cases j) auto
      with j have "i < length rs \<and> \<not> ok (Suc k + i)" by simp
      then show "\<exists>j < length rs. \<not> ok (Suc k + j)" by blast
    next
      assume "\<exists>j < length rs. \<not> ok (Suc k + j)"
      then obtain j where "j < length rs" "\<not> ok (Suc k + j)" by blast
      then have "Suc j < length (r # rs) \<and> \<not> ok (k + Suc j)" by simp
      then show "\<exists>j < length (r # rs). \<not> ok (k + j)" by blast
    qed
    have "Suc n \<le> length (r # rs) \<and>
        sql_rows ev = map (sql_row_of now) (take (Suc n) (r # rs)) \<and>
        cell_events ev = concat (map (cell_writes_of ts)
            (take (if raised then Suc (Suc n) else Suc n) (r # rs))) \<and>
        list_all loop_event ev \<and>
        (raised \<longleftrightarrow> (\<exists>j < length (r # rs). \<not> ok (k + j))) \<and>
        (\<not> raised \<longrightarrow> Suc n = length (r # rs))"
      using n e r by simp
    then show ?thesis by blast
  qed
qed

lemma durable_loop_events:
  "list_all loop_event ev \<Longrightarrow> durable (ev @ rest) p = durable rest (p @ sql_rows ev)"
proof (induction ev arbitrary: p)
  case Nil
  then show ?case by simp
next
  case (Cons e ev)
  then show ?case by (cases e) simp_all
qed

lemma loop_events_no_commit:
  "list_all loop_event ev \<Longrightarrow> Commit \<notin> set ev \<and> Connect \<notin> set ev"
  by (induction ev) (auto elim: loop_event.elims)

lemma count_loop_events:
  "list_all loop_event ev \<Longrightarrow> count_list ev Commit = 0 \<and> count_list ev Connect = 0"
  using loop_events_no_commit [of ev] by (simp add: count_list_0_iff)

lemma scan_cases:
  obtains
    (no_conn) "\<not> connect_ok io" "scan plcs tag_map io = ([], Some ConnectFailed)"
  | (exec_failed) ev where "connect_ok io"
      "persist_loop (execute_ok io) (scan_now io) (strftime (scan_now io)) 0
         (sorted_results plcs tag_map io) = (ev, True)"
      "scan plcs tag_map io = (Connect # ev, Some ExecuteFailed)"
  | (commit_failed) ev where "connect_ok io" "\<not> commit_ok io"
      "persist_loop (execute_ok io) (scan_now io) (strftime (scan_now io)) 0
         (sorted_results plcs tag_map io) = (ev, False)"
      "scan plcs tag_map io = (Connect # ev, Some CommitFailed)"
  | (finished) ev where "connect_ok io" "commit_ok io"
      "persist_loop (execute_ok io) (scan_now io) (strftime (scan_now io)) 0
         (sorted_results plcs tag_map io) = (ev, False)"
      "scan plcs tag_map io
         = (Connect # ev @ [Commit, CursorClose, ConnClose] @ (if save_ok io then [Save] else []),
            if save_ok io then None else Some SaveFailed)"
proof (cases "connect_ok io")
  case False
  then show ?thesis using no_conn by (simp add: scan_def Let_def)
next
  case True
  obtain ev raised where p: "persist_loop (execute_ok io) (scan_now io) (strftime (scan_now io)) 0
         (sorted_results plcs tag_map io) = (ev, raised)"
    by (cases "persist_loop (execute_ok io) (scan_now io) (strftime (scan_now io)) 0
         (sorted_results plcs tag_map io)")
  show ?thesis
  proof (cases raised)
    case r: True
    with True p show ?thesis using exec_failed [of ev] by (simp add: scan_def Let_def)
  next
    case r: False
    show ?thesis
    proof (cases "commit_ok io")
      case False
      with True p r show ?thesis using commit_failed [of ev] by (simp add: scan_def Let_def)
    next
      case c: True
      with True p r show ?thesis using finished [of ev] by (simp add: scan_def Let_def)
    qed
  qed
qed

lemma sorted_results_sorted:
  "sorted (map (\<lambda>r. tag_index (res_tag r)) (sorted_results plcs tag_map io))"
  by (simp add: sorted_results_def)

lemma sorted_map_take: "sorted (map f xs) \<Longrightarrow> sorted (map f (take n xs))"
  by (simp add: take_map [symmetric] sorted_wrt_take)

lemma take_min_length: "take (min (length xs) k) xs = take k xs"
  by (cases "k \<le> length xs") (simp_all add: min_def)

lemma TagIndex_rows:
  "map TagIndex (map (sql_row_of now) rs) = map (\<lambda>r. tag_index (res_tag r)) rs"
  by (simp add: sql_row_of_def)

lemma scan_written:
  "\<exists>n m. n \<le> m \<and> m \<le> length (sorted_results plcs tag_map io) \<and>
     sql_rows (fst (scan plcs tag_map io))
       = map (sql_row_of (scan_now io)) (take n (sorted_results plcs tag_map io)) \<and>
     cell_events (fst (scan plcs tag_map io))
       = concat (map (cell_writes_of (strftime (scan_now io)))
           (take m (sorted_results plcs tag_map io))) \<and>
     (snd (scan plcs tag_map io) \<in> {None, Some SaveFailed}
        \<longrightarrow> n = length (sorted_results plcs tag_map io))"
proof -
  let ?R = "sorted_results plcs tag_map io"
  let ?now = "scan_now io"
  let ?ts = "strftime ?now"
  have key: "\<And>ev raised tail. persist_loop (execute_ok io) ?now ?ts 0 ?R = (ev, raised) \<Longrightarrow>
      sql_rows tail = [] \<Longrightarrow> cell_events tail = [] \<Longrightarrow>
      \<exists>n m. n \<le> m \<and> m \<le> length ?R \<and>
        sql_rows (Connect # ev @ tail) = map (sql_row_of ?now) (take n ?R) \<and>
        cell_events (Connect # ev @ tail) = concat (map (cell_writes_of ?ts) (take m ?R)) \<and>
        (\<not> raised \<longrightarrow> n = length ?R)"
  proof -
    fix ev raised tail
    assume p: "persist_loop (execute_ok io) ?now ?ts 0 ?R = (ev, raised)"
      and t: "sql_rows tail = []" "cell_events tail = []"
    from persist_loop_shape [OF p] obtain n where n: "n \<le> length ?R"
      "sql_rows ev = map (sql_row_of ?now) (take n ?R)"
      "cell_events ev = concat (map (cell_writes_of ?ts) (take (if raised then Suc n else n) ?R))"
      "list_all loop_event ev" "\<not> raised \<longrightarrow> n = length ?R" by blast
    have app: "\<And>xs ys. list_all loop_event xs \<Longrightarrow> sql_rows (xs @ ys) = sql_rows xs @ sql_rows ys
        \<and> cell_events (xs @ ys) = cell_events xs @ cell_events ys"
    proof -
      fix xs ys show "list_all loop_event xs \<Longrightarrow> sql_rows (xs @ ys) = sql_rows xs @ sql_rows ys
        \<and> cell_events (xs @ ys) = cell_events xs @ cell_events ys"
      proof (induction xs)
        case Nil then show ?case by simp
      next
        case (Cons e xs) then show ?case by (cases e) simp_all
      qed
    qed
    let ?m = "min (length ?R) (if raised then Suc n else n)"
    have "take (if raised then Suc n else n) ?R = take ?m ?R"
      by (simp only: take_min_length)
    with n t app [OF n(4), of tail]
    have "n \<le> ?m \<and> ?m \<le> length ?R \<and>
        sql_rows (Connect # ev @ tail) = map (sql_row_of ?now) (take n ?R) \<and>
        cell_events (Connect # ev @ tail) = concat (map (cell_writes_of ?ts) (take ?m ?R)) \<and>
        (\<not> raised \<longrightarrow> n = length ?R)"
      by (simp del: take_all_iff)
    then show "\<exists>n m. n \<le> m \<and> m \<le> length ?R \<and>
        sql_rows (Connect # ev @ tail) = map (sql_row_of ?now) (take n ?R) \<and>
        cell_events (Connect # ev @ tail) = concat (map (cell_writes_of ?ts) (take m ?R)) \<and>
        (\<not> raised \<longrightarrow> n = length ?R)" by blast
  qed
  show ?thesis
  proof (cases rule: scan_cases [of io plcs tag_map])
    case no_conn
    have "(0::nat) \<le> 0 \<and> 0 \<le> length ?R \<and>
      sql_rows (fst (scan plcs tag_map io)) = map (sql_row_of ?now) (take 0 ?R) \<and>
      cell_events (fst (scan plcs tag_map io)) = concat (map (cell_writes_of ?ts) (take 0 ?R)) \<and>
      (snd (scan plcs tag_map io) \<in> {None, Some SaveFailed} \<longrightarrow> 0 = length ?R)"
      using no_conn by simp
    then show ?thesis by blast
  next
    case (exec_failed ev)
    have "sql_rows [] = []" "cell_events [] = []" by simp_all
    from key [OF exec_failed(2) this] obtain n m where
      "n \<le> m \<and> m \<le> length ?R \<and>
        sql_rows (Connect # ev @ []) = map (sql_row_of ?now) (take n ?R) \<and>
        cell_events (Connect # ev @ []) = concat (map (cell_writes_of ?ts) (take m ?R)) \<and>
        (\<not> True \<longrightarrow> n = length ?R)"
      by blast
    with exec_failed(3) show ?thesis
      by (intro exI [of _ n] exI [of _ m]) simp
  next
    case (commit_failed ev)
    have "sql_rows [] = []" "cell_events [] = []" by simp_all
    from key [OF commit_failed(3) this] obtain n m where
      "n \<le> m \<and> m \<le> length ?R \<and>
        sql_rows (Connect # ev @ []) = map (sql_row_of ?now) (take n ?R) \<and>
        cell_events (Connect # ev @ []) = concat (map (cell_writes_of ?ts) (take m ?R)) \<and>
        (\<not> False \<longrightarrow> n = length ?R)"
      by blast
    with commit_failed(4) show ?thesis
      by (intro exI [of _ n] exI [of _ m]) simp
  next
    case (finished ev)
    let ?tail = "[Commit, CursorClose, ConnClose] @ (if save_ok io then [Save] else [])"
    have "sql_rows ?tail = []" "cell_events ?tail = []" by simp_all
    from key [OF finished(3) this] obtain n m where
      "n \<le> m \<and> m \<le> length ?R \<and>
        sql_rows (Connect # ev @ ?tail) = map (sql_row_of ?now) (take n ?R) \<and>
        cell_events (Connect # ev @ ?tail) = concat (map (cell_writes_of ?ts) (take m ?R)) \<and>
        (\<not> False \<longrightarrow> n = length ?R)"
      by blast
    with finished(4) show ?thesis
      by (intro exI [of _ n] exI [of _ m]) simp
  qed
qed

lemma persist_loop_ok:
  assumes p: "persist_loop ok now ts 0 rs = (ev, False)"
  shows "list_all loop_event ev \<and> sql_rows ev = map (sql_row_of now) rs"
proof -
  from persist_loop_shape [OF p] obtain n where
    "sql_rows ev = map (sql_row_of now) (take n rs)" "list_all loop_event ev"
    "\<not> False \<longrightarrow> n = length rs" by blast
  then show ?thesis by simp
qed

lemma persist_loop_raised:
  "persist_loop ok now ts 0 rs = (ev, raised) \<Longrightarrow>
     list_all loop_event ev \<and> (raised \<longleftrightarrow> (\<exists>j < length rs. \<not> ok j))"
  using persist_loop_shape [of ok now ts 0 rs ev raised] by auto

lemma durable_loop_only:
  "list_all loop_event ev \<Longrightarrow> durable ev p = []"
  using durable_loop_events [of ev "[]" p] by simp

lemma scan_committed:
  assumes "snd (scan plcs tag_map io) \<in> {None, Some SaveFailed}"
  shows "\<exists>body tail. fst (scan plcs tag_map io) = Connect # body @ Commit # tail \<and>
           list_all loop_event body \<and> sql_rows tail = [] \<and> Commit \<notin> set tail \<and>
           Connect \<notin> set tail \<and>
           sql_rows body = map (sql_row_of (scan_now io)) (sorted_results plcs tag_map io)"
    and "durable (fst (scan plcs tag_map io)) []
           = map (sql_row_of (scan_now io)) (sorted_results plcs tag_map io)"
proof -
  let ?tail = "CursorClose # ConnClose # (if save_ok io then [Save] else [])"
  from assms obtain ev where
    p: "persist_loop (execute_ok io) (scan_now io) (strftime (scan_now io)) 0
         (sorted_results plcs tag_map io) = (ev, False)"
    and sc: "fst (scan plcs tag_map io) = Connect # ev @ Commit # ?tail"
    by (cases rule: scan_cases [of io plcs tag_map]) simp_all
  from persist_loop_ok [OF p]
  have q: "list_all loop_event ev"
    and rows: "sql_rows ev = map (sql_row_of (scan_now io)) (sorted_results plcs tag_map io)"
    by simp_all
  have st: "sql_rows ?tail = []" "Commit \<notin> set ?tail" "Connect \<notin> set ?tail" by simp_all
  show "\<exists>body tail. fst (scan plcs tag_map io) = Connect # body @ Commit # tail \<and>
           list_all loop_event body \<and> sql_rows tail = [] \<and> Commit \<notin> set tail \<and>
           Connect \<notin> set tail \<and>
           sql_rows body = map (sql_row_of (scan_now io)) (sorted_results plcs tag_map io)"
    using sc q rows st by blast
  show "durable (fst (scan plcs tag_map io)) []
           = map (sql_row_of (scan_now io)) (sorted_results plcs tag_map io)"
    using durable_loop_events [OF q, of "Commit # ?tail" "[]"] rows by (simp add: sc)
qed

lemma scan_uncommitted_shape:
  assumes "snd (scan plcs tag_map io) \<in> {Some ConnectFailed, Some ExecuteFailed, Some CommitFailed}"
  shows "\<exists>ev. list_all loop_event ev \<and>
           (fst (scan plcs tag_map io) = [] \<or> fst (scan plcs tag_map io) = Connect # ev)"
proof (cases rule: scan_cases [of io plcs tag_map])
  case no_conn
  have "list_all loop_event [] \<and>
           (fst (scan plcs tag_map io) = [] \<or> fst (scan plcs tag_map io) = Connect # [])"
    using no_conn by simp
  then show ?thesis by (rule exI)
next
  case (exec_failed ev)
  from persist_loop_raised [OF exec_failed(2)] have "list_all loop_event ev" by simp
  with exec_failed(3) have "list_all loop_event ev \<and>
           (fst (scan plcs tag_map io) = [] \<or> fst (scan plcs tag_map io) = Connect # ev)"
    by simp
  then show ?thesis by (rule exI)
next
  case (commit_failed ev)
  from persist_loop_raised [OF commit_failed(3)] have "list_all loop_event ev" by simp
  with commit_failed(4) have "list_all loop_event ev \<and>
           (fst (scan plcs tag_map io) = [] \<or> fst (scan plcs tag_map io) = Connect # ev)"
    by simp
  then show ?thesis by (rule exI)
next
  case (finished ev)
  with assms show ?thesis by (simp split: if_splits)
qed

lemma scan_uncommitted:
  assumes "snd (scan plcs tag_map io) \<in> {Some ConnectFailed, Some ExecuteFailed, Some CommitFailed}"
  shows "Commit \<notin> set (fst (scan plcs tag_map io))"
    and "durable (fst (scan plcs tag_map io)) [] = []"
    and "count_list (fst (scan plcs tag_map io)) Connect \<le> 1"
proof -
  from scan_uncommitted_shape [OF assms] obtain ev where q: "list_all loop_event ev"
    and sc: "fst (scan plcs tag_map io) = [] \<or> fst (scan plcs tag_map io) = Connect # ev"
    by blast
  from q have nc: "Commit \<notin> set ev" "count_list ev Connect = 0"
    using loop_events_no_commit [of ev] count_loop_events [of ev] by simp_all
  from sc nc show "Commit \<notin> set (fst (scan plcs tag_map io))" by auto
  from sc q show "durable (fst (scan plcs tag_map io)) [] = []"
    by (auto simp: durable_loop_only)
  from sc nc show "count_list (fst (scan plcs tag_map io)) Connect \<le> 1" by auto
qed

lemma scan_outcome:
  "snd (scan plcs tag_map io) \<in> {None, Some SaveFailed} \<longleftrightarrow>
     connect_ok io \<and> (\<forall>k < length (sorted_results plcs tag_map io). execute_ok io k)
       \<and> commit_ok io"
  "snd (scan plcs tag_map io) = Some ExecuteFailed \<longleftrightarrow>
     connect_ok io \<and> (\<exists>k < length (sorted_results plcs tag_map io). \<not> execute_ok io k)"
proof -
  show "snd (scan plcs tag_map io) \<in> {None, Some SaveFailed} \<longleftrightarrow>
     connect_ok io \<and> (\<forall>k < length (sorted_results plcs tag_map io). execute_ok io k)
       \<and> commit_ok io"
  proof (cases rule: scan_cases [of io plcs tag_map])
    case no_conn
    then show ?thesis by simp
  next
    case (exec_failed ev)
    with persist_loop_raised [OF exec_failed(2)] show ?thesis by auto
  next
    case (commit_failed ev)
    then show ?thesis by simp
  next
    case (finished ev)
    with persist_loop_raised [OF finished(3)] show ?thesis by auto
  qed
  show "snd (scan plcs tag_map io) = Some ExecuteFailed \<longleftrightarrow>
     connect_ok io \<and> (\<exists>k < length (sorted_results plcs tag_map io). \<not> execute_ok io k)"
  proof (cases rule: scan_cases [of io plcs tag_map])
    case no_conn
    then show ?thesis by simp
  next
    case (exec_failed ev)
    with persist_loop_raised [OF exec_failed(2)] show ?thesis by auto
  next
    case (commit_failed ev)
    with persist_loop_raised [OF commit_failed(3)] show ?thesis by auto
  next
    case (finished ev)
    with persist_loop_raised [OF finished(3)] show ?thesis by auto
  qed
qed


section \<open>Claim C1: one result per catalog tag\<close>

text \<open>
  C1. For every configured device with catalog entries, let a read that returns hold one
  reply per tag asked for (\<open>answers_per_tag\<close>: \<^verbatim>\<open>zip\<close> stops at the shorter list) and let
  the calls of \<^verbatim>\<open>log\<close> in the retry handlers return (\<open>logs_return\<close>). Then, whatever the mix
  of devices that are offline, that fault on every attempt or that answer, and whatever
  the order in which the workers append: every worker of a configured device with
  catalog entries returns exactly the tags of its list, in order, and ends without an
  exception; the gathered results, taken as device/tag pairs, are exactly the catalog
  pairs of the configured devices, each once; their number is the sum of the catalog tag
  counts; and when the connection, the inserts and the commit succeed, the rows the
  store keeps are as many, for the same devices and tags.
\<close>

theorem one_result_per_tag:
  assumes "\<forall>(name, info) \<in> set plcs. \<forall>tags. tag_map name = Some tags \<longrightarrow>
             answers_per_tag (devices io name) info tags \<and> logs_return (devices io name)"
  shows "(\<forall>(name, info) \<in> set plcs. \<forall>tags. tag_map name = Some tags \<longrightarrow>
             map res_tag (fst (plc_worker name info tags (devices io name))) = tags \<and>
             snd (snd (plc_worker name info tags (devices io name))) = None) \<and>
         mset (map (\<lambda>r. (res_plc r, res_tag r)) (gather plcs tag_map io))
           = mset (catalog_pairs plcs tag_map) \<and>
         length (gather plcs tag_map io) = catalog_count plcs tag_map \<and>
         (connect_ok io \<and> (\<forall>k < catalog_count plcs tag_map. execute_ok io k) \<and> commit_ok io
            \<longrightarrow> length (durable (fst (scan plcs tag_map io)) []) = catalog_count plcs tag_map \<and>
                mset (map (\<lambda>q. (PLC q, TagIndex q, TagName q))
                       (durable (fst (scan plcs tag_map io)) []))
                  = mset (map (\<lambda>(n, t). (n, tag_index t, tag_name t))
                       (catalog_pairs plcs tag_map)))"
proof (intro conjI)
  show "\<forall>(name, info) \<in> set plcs. \<forall>tags. tag_map name = Some tags \<longrightarrow>
             map res_tag (fst (plc_worker name info tags (devices io name))) = tags \<and>
             snd (snd (plc_worker name info tags (devices io name))) = None"
  proof (intro ballI, clarify)
    fix name info tags
    assume "(name, info) \<in> set plcs" "tag_map name = Some tags"
    with assms have a: "answers_per_tag (devices io name) info tags"
      and l: "logs_return (devices io name)" by blast+
    from worker_pairs [OF a l, of name]
    have "map snd (map (\<lambda>r. (res_plc r, res_tag r))
            (fst (plc_worker name info tags (devices io name)))) = map snd (map (Pair name) tags)"
      by simp
    then have "map res_tag (fst (plc_worker name info tags (devices io name))) = tags"
      by (simp add: comp_def)
    moreover have "snd (snd (plc_worker name info tags (devices io name))) = None"
      using a l by (rule worker_no_exception)
    ultimately show "map res_tag (fst (plc_worker name info tags (devices io name))) = tags \<and>
             snd (snd (plc_worker name info tags (devices io name))) = None" by simp
  qed
  show g: "mset (map (\<lambda>r. (res_plc r, res_tag r)) (gather plcs tag_map io))
           = mset (catalog_pairs plcs tag_map)"
    using assms by (rule gather_pairs)
  show l: "length (gather plcs tag_map io) = catalog_count plcs tag_map"
    using assms by (rule length_gather)
  show "connect_ok io \<and> (\<forall>k < catalog_count plcs tag_map. execute_ok io k) \<and> commit_ok io
            \<longrightarrow> length (durable (fst (scan plcs tag_map io)) []) = catalog_count plcs tag_map \<and>
                mset (map (\<lambda>q. (PLC q, TagIndex q, TagName q))
                       (durable (fst (scan plcs tag_map io)) []))
                  = mset (map (\<lambda>(n, t). (n, tag_index t, tag_name t))
                       (catalog_pairs plcs tag_map))"
  proof
    assume ok: "connect_ok io \<and> (\<forall>k < catalog_count plcs tag_map. execute_ok io k) \<and> commit_ok io"
    let ?R = "sorted_results plcs tag_map io"
    have mR: "mset ?R = mset (gather plcs tag_map io)" by (simp add: sorted_results_def)
    have lR: "length ?R = catalog_count plcs tag_map"
      using l by (simp add: sorted_results_def)
    from ok lR have "snd (scan plcs tag_map io) \<in> {None, Some SaveFailed}"
      by (simp only: scan_outcome(1)) simp
    then have d: "durable (fst (scan plcs tag_map io)) [] = map (sql_row_of (scan_now io)) ?R"
      by (rule scan_committed(2))
    have "mset (map (\<lambda>r. (res_plc r, res_tag r)) ?R)
            = mset (map (\<lambda>r. (res_plc r, res_tag r)) (gather plcs tag_map io))"
      by (simp add: sorted_results_def)
    with g have pr: "mset (map (\<lambda>r. (res_plc r, res_tag r)) ?R) = mset (catalog_pairs plcs tag_map)"
      by simp
    have "map (\<lambda>q. (PLC q, TagIndex q, TagName q)) (map (sql_row_of (scan_now io)) ?R)
            = map (\<lambda>(n, t). (n, tag_index t, tag_name t))
                (map (\<lambda>r. (res_plc r, res_tag r)) ?R)"
      by (rule sql_row_pairs)
    then have "mset (map (\<lambda>q. (PLC q, TagIndex q, TagName q))
                  (map (sql_row_of (scan_now io)) ?R))
            = mset (map (\<lambda>(n, t). (n, tag_index t, tag_name t))
                (map (\<lambda>r. (res_plc r, res_tag r)) ?R))"
      by (rule arg_cong)
    also have "\<dots> = image_mset (\<lambda>(n, t). (n, tag_index t, tag_name t))
                (mset (map (\<lambda>r. (res_plc r, res_tag r)) ?R))"
      by (rule mset_map)
    also have "\<dots> = image_mset (\<lambda>(n, t). (n, tag_index t, tag_name t))
                (mset (catalog_pairs plcs tag_map))"
      by (simp only: pr)
    also have "\<dots> = mset (map (\<lambda>(n, t). (n, tag_index t, tag_name t))
                       (catalog_pairs plcs tag_map))"
      by (rule mset_map [symmetric])
    finally show "length (durable (fst (scan plcs tag_map io)) []) = catalog_count plcs tag_map \<and>
                mset (map (\<lambda>q. (PLC q, TagIndex q, TagName q))
                       (durable (fst (scan plcs tag_map io)) []))
                  = mset (map (\<lambda>(n, t). (n, tag_index t, tag_name t))
                       (catalog_pairs plcs tag_map))"
      using d lR by simp
  qed
qed

text \<open>The sample cycle: \<open>[A]\<close> answers both tags, \<open>[B]\<close> is offline; three results, three rows.\<close>

theorem one_result_per_tag_witness:
  "answers_per_tag (devices noon_cycle (Some ''[A]''))
     \<lparr>plc_type = ''MICROLOGIX'', plc_ip = ''192.168.1.20''\<rparr> [tag_a1, tag_a2] \<and>
   answers_per_tag (devices noon_cycle (Some ''[B]''))
     \<lparr>plc_type = ''COMPACT'', plc_ip = ''192.168.1.10''\<rparr> [tag_b1] \<and>
   logs_return (devices noon_cycle (Some ''[A]'')) \<and>
   logs_return (devices noon_cycle (Some ''[B]'')) \<and>
   connect_ok noon_cycle \<and> commit_ok noon_cycle \<and>
   catalog_count plant_plcs plant_tags = 3 \<and>
   length (gather plant_plcs plant_tags noon_cycle) = 3 \<and>
   length (durable (fst (scan plant_plcs plant_tags noon_cycle)) []) = 3"
proof -
  have a: "answers_per_tag (devices noon_cycle (Some ''[A]''))
     \<lparr>plc_type = ''MICROLOGIX'', plc_ip = ''192.168.1.20''\<rparr> [tag_a1, tag_a2]"
    unfolding noon_cycle_def dev_up_def dev_offline_def by code_simp
  have b: "answers_per_tag (devices noon_cycle (Some ''[B]''))
     \<lparr>plc_type = ''COMPACT'', plc_ip = ''192.168.1.10''\<rparr> [tag_b1]"
    unfolding noon_cycle_def dev_up_def dev_offline_def by code_simp
  have la: "logs_return (devices noon_cycle (Some ''[A]''))"
    unfolding noon_cycle_def dev_up_def dev_offline_def by code_simp
  have lb: "logs_return (devices noon_cycle (Some ''[B]''))"
    unfolding noon_cycle_def dev_up_def dev_offline_def by code_simp
  have h: "\<forall>(name, info) \<in> set plant_plcs. \<forall>tags. plant_tags name = Some tags \<longrightarrow>
             answers_per_tag (devices noon_cycle name) info tags
             \<and> logs_return (devices noon_cycle name)"
    using a b la lb by (simp add: plant_plcs_def plant_tags_def)
  have c: "catalog_count plant_plcs plant_tags = 3"
    by (simp add: catalog_count_def plant_plcs_def plant_tags_def)
  have s: "connect_ok noon_cycle" "commit_ok noon_cycle" "\<forall>k < 3. execute_ok noon_cycle k"
    by (simp_all add: noon_cycle_def)
  from one_result_per_tag [OF h] c s
  have "length (gather plant_plcs plant_tags noon_cycle) = 3
      \<and> length (durable (fst (scan plant_plcs plant_tags noon_cycle)) []) = 3"
    by simp
  with a b la lb c s show ?thesis by simp
qed

text \<open>
  C1 as stated fails on three cycles of the sample plant, whose catalog holds three tags.
  With every insert raising, the store keeps no row of the cycle. With a reply of one
  entry for the two tags of \<open>[A]\<close>, \<^verbatim>\<open>zip\<close> cuts the results of \<open>[A]\<close> to one. With \<open>[B]\<close>
  answering the ping, faulting on its read and the standard output refusing the arrow of
  the retry message, \<^verbatim>\<open>log\<close> raises inside the handler, the worker of \<open>[B]\<close> ends with
  nothing appended, and the cycle gathers the two results of \<open>[A]\<close> only.
\<close>

theorem one_result_per_tag_counterexample:
  "catalog_count plant_plcs plant_tags = 3 \<and>
   length (gather plant_plcs plant_tags (noon_cycle\<lparr>execute_ok := (\<lambda>k. False)\<rparr>)) = 3 \<and>
   length (durable (fst (scan plant_plcs plant_tags
       (noon_cycle\<lparr>execute_ok := (\<lambda>k. False)\<rparr>))) []) = 0 \<and>
   length (gather plant_plcs plant_tags
       (noon_cycle\<lparr>devices := (\<lambda>name. if name = Some ''[A]''
            then dev_up\<lparr>slc_read := (\<lambda>n. Returns (SlcMany
                   [\<lparr>slc_value = PInt 32, slc_error = None\<rparr>]))\<rparr>
            else dev_offline)\<rparr>)) = 2 \<and>
   plc_worker (Some ''[B]'') \<lparr>plc_type = ''COMPACT'', plc_ip = ''192.168.1.10''\<rparr> [tag_b1]
       (dev_mute\<lparr>log_ok := (\<lambda>n. False)\<rparr>)
     = ([], 1, Some ''UnicodeEncodeError'') \<and>
   length (gather plant_plcs plant_tags
       (noon_cycle\<lparr>devices := (\<lambda>name. if name = Some ''[A]'' then dev_up
            else dev_mute\<lparr>log_ok := (\<lambda>n. False)\<rparr>)\<rparr>)) = 2"
  unfolding noon_cycle_def dev_up_def dev_offline_def dev_mute_def plant_plcs_def plant_tags_def
    tag_a1_def tag_a2_def tag_b1_def at_def
  by code_simp


section \<open>Claim C6: persisted order\<close>

text \<open>
  C6. In every cycle, whatever the order in which the workers appended: the list the
  persistence loop walks is the gathered results sorted by tag index, ascending; the rows
  passed to the relational sink and the cells written in the worksheet both follow that
  list from its start (all of it when no insert or commit fails), so the tag indices
  written to either sink are non-decreasing.
\<close>

theorem persisted_order:
  "sorted (map (\<lambda>r. tag_index (res_tag r)) (sorted_results plcs tag_map io)) \<and>
   mset (sorted_results plcs tag_map io) = mset (gather plcs tag_map io) \<and>
   (\<exists>n m. n \<le> m \<and> m \<le> length (sorted_results plcs tag_map io) \<and>
      sql_rows (fst (scan plcs tag_map io))
        = map (sql_row_of (scan_now io)) (take n (sorted_results plcs tag_map io)) \<and>
      cell_events (fst (scan plcs tag_map io))
        = concat (map (cell_writes_of (strftime (scan_now io)))
            (take m (sorted_results plcs tag_map io))) \<and>
      (snd (scan plcs tag_map io) \<in> {None, Some SaveFailed}
         \<longrightarrow> n = length (sorted_results plcs tag_map io))) \<and>
   sorted (map TagIndex (sql_rows (fst (scan plcs tag_map io))))"
proof (intro conjI)
  show s: "sorted (map (\<lambda>r. tag_index (res_tag r)) (sorted_results plcs tag_map io))"
    by (rule sorted_results_sorted)
  show "mset (sorted_results plcs tag_map io) = mset (gather plcs tag_map io)"
    by (simp add: sorted_results_def)
  show "\<exists>n m. n \<le> m \<and> m \<le> length (sorted_results plcs tag_map io) \<and>
      sql_rows (fst (scan plcs tag_map io))
        = map (sql_row_of (scan_now io)) (take n (sorted_results plcs tag_map io)) \<and>
      cell_events (fst (scan plcs tag_map io))
        = concat (map (cell_writes_of (strftime (scan_now io)))
            (take m (sorted_results plcs tag_map io))) \<and>
      (snd (scan plcs tag_map io) \<in> {None, Some SaveFailed}
         \<longrightarrow> n = length (sorted_results plcs tag_map io))"
    by (rule scan_written)
  from scan_written [of plcs tag_map io] obtain n where
    "sql_rows (fst (scan plcs tag_map io))
        = map (sql_row_of (scan_now io)) (take n (sorted_results plcs tag_map io))" by blast
  then have "map TagIndex (sql_rows (fst (scan plcs tag_map io)))
        = map (\<lambda>r. tag_index (res_tag r)) (take n (sorted_results plcs tag_map io))"
    by (simp only: TagIndex_rows)
  with sorted_map_take [OF s, of n]
  show "sorted (map TagIndex (sql_rows (fst (scan plcs tag_map io))))" by simp
qed

text \<open>The sample cycle gathers the indices 10, 5, 11 and writes 5, 10, 11.\<close>

theorem persisted_order_witness:
  "map (\<lambda>r. tag_index (res_tag r)) (gather plant_plcs plant_tags noon_cycle) = [10, 5, 11] \<and>
   snd (scan plant_plcs plant_tags noon_cycle) = None \<and>
   map TagIndex (sql_rows (fst (scan plant_plcs plant_tags noon_cycle))) = [5, 10, 11] \<and>
   sorted (map TagIndex (sql_rows (fst (scan plant_plcs plant_tags noon_cycle)))) \<and>
   length (sql_rows (fst (scan plant_plcs plant_tags noon_cycle)))
     = length (sorted_results plant_plcs plant_tags noon_cycle)"
proof -
  have g: "map (\<lambda>r. tag_index (res_tag r)) (gather plant_plcs plant_tags noon_cycle)
             = [10, 5, 11]"
    unfolding noon_cycle_def dev_up_def dev_offline_def plant_plcs_def plant_tags_def
      tag_a1_def tag_a2_def tag_b1_def
    by code_simp
  have e: "snd (scan plant_plcs plant_tags noon_cycle) = None"
    unfolding noon_cycle_def dev_up_def dev_offline_def plant_plcs_def plant_tags_def
      tag_a1_def tag_a2_def tag_b1_def at_def
    by code_simp
  have r: "map TagIndex (sql_rows (fst (scan plant_plcs plant_tags noon_cycle))) = [5, 10, 11]"
    unfolding noon_cycle_def dev_up_def dev_offline_def plant_plcs_def plant_tags_def
      tag_a1_def tag_a2_def tag_b1_def at_def
    by code_simp
  from persisted_order [of plant_plcs plant_tags noon_cycle] e obtain n where
    "sql_rows (fst (scan plant_plcs plant_tags noon_cycle))
       = map (sql_row_of (scan_now noon_cycle))
           (take n (sorted_results plant_plcs plant_tags noon_cycle))"
    "n = length (sorted_results plant_plcs plant_tags noon_cycle)"
    and s: "sorted (map TagIndex (sql_rows (fst (scan plant_plcs plant_tags noon_cycle))))"
    by auto
  then have "length (sql_rows (fst (scan plant_plcs plant_tags noon_cycle)))
     = length (sorted_results plant_plcs plant_tags noon_cycle)"
    by simp
  with g e r s show ?thesis by simp
qed

section \<open>Claim C9: one commit, after every insert\<close>

text \<open>
  C9. A scan opens at most one connection and commits at most once. When it gets past
  the commit, the events are the connection, the loop's cell writes and inserts, one for
  every result of the cycle, then the commit, with no insert after it, and the store
  keeps exactly the cycle's rows. When the connection is open and some insert raises, the
  scan ends with that exception; and a scan that ends in a failed connection, insert or
  commit contains no commit and leaves the store with none of the cycle's rows.
\<close>

theorem single_commit_per_cycle:
  "count_list (fst (scan plcs tag_map io)) Connect \<le> 1 \<and>
   count_list (fst (scan plcs tag_map io)) Commit \<le> 1 \<and>
   (snd (scan plcs tag_map io) \<in> {None, Some SaveFailed} \<longrightarrow>
      (\<exists>body tail. fst (scan plcs tag_map io) = Connect # body @ Commit # tail \<and>
         list_all loop_event body \<and> sql_rows tail = [] \<and>
         sql_rows body = map (sql_row_of (scan_now io)) (sorted_results plcs tag_map io)) \<and>
      durable (fst (scan plcs tag_map io)) []
        = map (sql_row_of (scan_now io)) (sorted_results plcs tag_map io)) \<and>
   (connect_ok io \<and> (\<exists>k < length (sorted_results plcs tag_map io). \<not> execute_ok io k) \<longrightarrow>
      snd (scan plcs tag_map io) = Some ExecuteFailed) \<and>
   (snd (scan plcs tag_map io) \<in> {Some ConnectFailed, Some ExecuteFailed, Some CommitFailed} \<longrightarrow>
      Commit \<notin> set (fst (scan plcs tag_map io)) \<and> durable (fst (scan plcs tag_map io)) [] = [])"
proof (intro conjI impI)
  show "count_list (fst (scan plcs tag_map io)) Connect \<le> 1"
  proof (cases "snd (scan plcs tag_map io) \<in> {None, Some SaveFailed}")
    case True
    from scan_committed(1) [OF True] obtain body tail where
      b: "fst (scan plcs tag_map io) = Connect # body @ Commit # tail"
         "list_all loop_event body" "Connect \<notin> set tail" by blast
    from count_loop_events [OF b(2)] b(3) show ?thesis by (simp add: b(1))
  next
    case False
    then have "snd (scan plcs tag_map io)
        \<in> {Some ConnectFailed, Some ExecuteFailed, Some CommitFailed}"
      by (cases rule: scan_cases [of io plcs tag_map]) (simp_all split: if_splits)
    then show ?thesis by (rule scan_uncommitted(3))
  qed
  show "count_list (fst (scan plcs tag_map io)) Commit \<le> 1"
  proof (cases "snd (scan plcs tag_map io) \<in> {None, Some SaveFailed}")
    case True
    from scan_committed(1) [OF True] obtain body tail where
      b: "fst (scan plcs tag_map io) = Connect # body @ Commit # tail"
         "list_all loop_event body" "Commit \<notin> set tail" by blast
    from count_loop_events [OF b(2)] b(3) show ?thesis by (simp add: b(1))
  next
    case False
    then have "snd (scan plcs tag_map io)
        \<in> {Some ConnectFailed, Some ExecuteFailed, Some CommitFailed}"
      by (cases rule: scan_cases [of io plcs tag_map]) (simp_all split: if_splits)
    from scan_uncommitted(1) [OF this] show ?thesis by simp
  qed
next
  assume a: "snd (scan plcs tag_map io) \<in> {None, Some SaveFailed}"
  from scan_committed(1) [OF a]
  show "\<exists>body tail. fst (scan plcs tag_map io) = Connect # body @ Commit # tail \<and>
         list_all loop_event body \<and> sql_rows tail = [] \<and>
         sql_rows body = map (sql_row_of (scan_now io)) (sorted_results plcs tag_map io)"
    by blast
  from scan_committed(2) [OF a]
  show "durable (fst (scan plcs tag_map io)) []
        = map (sql_row_of (scan_now io)) (sorted_results plcs tag_map io)" .
next
  assume "connect_ok io \<and> (\<exists>k < length (sorted_results plcs tag_map io). \<not> execute_ok io k)"
  then show "snd (scan plcs tag_map io) = Some ExecuteFailed"
    by (simp only: scan_outcome(2))
next
  assume a: "snd (scan plcs tag_map io)
      \<in> {Some ConnectFailed, Some ExecuteFailed, Some CommitFailed}"
  then show "Commit \<notin> set (fst (scan plcs tag_map io))" by (rule scan_uncommitted(1))
  from a show "durable (fst (scan plcs tag_map io)) [] = []" by (rule scan_uncommitted(2))
qed

text \<open>The sample cycle, and the same cycle with the second insert raising.\<close>

theorem single_commit_per_cycle_witness:
  "snd (scan plant_plcs plant_tags noon_cycle) = None \<and>
   map TagIndex (durable (fst (scan plant_plcs plant_tags noon_cycle)) []) = [5, 10, 11] \<and>
   connect_ok (noon_cycle\<lparr>execute_ok := (\<lambda>k. k < 1)\<rparr>) \<and>
   length (sorted_results plant_plcs plant_tags (noon_cycle\<lparr>execute_ok := (\<lambda>k. k < 1)\<rparr>)) = 3 \<and>
   snd (scan plant_plcs plant_tags (noon_cycle\<lparr>execute_ok := (\<lambda>k. k < 1)\<rparr>))
     = Some ExecuteFailed \<and>
   length (sql_rows (fst (scan plant_plcs plant_tags
       (noon_cycle\<lparr>execute_ok := (\<lambda>k. k < 1)\<rparr>)))) = 1 \<and>
   Commit \<notin> set (fst (scan plant_plcs plant_tags (noon_cycle\<lparr>execute_ok := (\<lambda>k. k < 1)\<rparr>))) \<and>
   durable (fst (scan plant_plcs plant_tags (noon_cycle\<lparr>execute_ok := (\<lambda>k. k < 1)\<rparr>))) [] = []"
proof -
  let ?bad = "noon_cycle\<lparr>execute_ok := (\<lambda>k. k < 1)\<rparr>"
  have e: "snd (scan plant_plcs plant_tags noon_cycle) = None"
    unfolding noon_cycle_def dev_up_def dev_offline_def plant_plcs_def plant_tags_def
      tag_a1_def tag_a2_def tag_b1_def at_def
    by code_simp
  have r: "map TagIndex (map (sql_row_of (scan_now noon_cycle))
             (sorted_results plant_plcs plant_tags noon_cycle)) = [5, 10, 11]"
    unfolding noon_cycle_def dev_up_def dev_offline_def plant_plcs_def plant_tags_def
      tag_a1_def tag_a2_def tag_b1_def at_def
    by code_simp
  have c: "connect_ok ?bad" by (simp add: noon_cycle_def)
  have l: "length (sorted_results plant_plcs plant_tags ?bad) = 3"
    unfolding noon_cycle_def dev_up_def dev_offline_def plant_plcs_def plant_tags_def
      tag_a1_def tag_a2_def tag_b1_def at_def
    by code_simp
  have x: "\<exists>k < length (sorted_results plant_plcs plant_tags ?bad). \<not> execute_ok ?bad k"
    unfolding l by (intro exI [of _ 1]) simp
  have n: "length (sql_rows (fst (scan plant_plcs plant_tags ?bad))) = 1"
    unfolding noon_cycle_def dev_up_def dev_offline_def plant_plcs_def plant_tags_def
      tag_a1_def tag_a2_def tag_b1_def at_def
    by code_simp
  from single_commit_per_cycle [of plant_plcs plant_tags noon_cycle] e r
  have ok: "map TagIndex (durable (fst (scan plant_plcs plant_tags noon_cycle)) []) = [5, 10, 11]"
    by simp
  from single_commit_per_cycle [of plant_plcs plant_tags ?bad] c x
  have bad: "snd (scan plant_plcs plant_tags ?bad) = Some ExecuteFailed"
    "Commit \<notin> set (fst (scan plant_plcs plant_tags ?bad))"
    "durable (fst (scan plant_plcs plant_tags ?bad)) [] = []"
    by simp_all
  from e ok c l n bad show ?thesis by simp
qed

section \<open>Claim C2: a persistence fault and the main loop\<close>

lemma run_cycles_fault:
  assumes "\<not> restart_due (now_check io) last_date"
    and "snd (scan plcs tag_map io) = Some e"
  shows "run_cycles plcs tag_map last_date (io # ios)
           = ([Purged (fst (purge_old_logs (purge_now io) 7 (log_dir_now io)))
                 # fst (scan plcs tag_map io)], Crashed e)"
  using assms by (simp add: restart_check_def case_prod_beta)

text \<open>
  C2 on the code. \<^verbatim>\<open>main_loop\<close> has no \<^verbatim>\<open>try\<close> around the body of its \<^verbatim>\<open>while\<close> and
  \<^verbatim>\<open>__main__\<close> calls it bare, so an exception of \<^verbatim>\<open>get_sql_connection\<close>,
  \<^verbatim>\<open>cursor.execute\<close> or \<^verbatim>\<open>conn.commit\<close> ends the process. Run on two cycles, the first
  with the database unreachable, the process stops in the first, after the retention
  sweep and before any worker is started; with the commit failing it stops after the
  inserts of the first cycle, none of them kept; in both runs the second cycle, which
  would succeed, never begins.
\<close>

theorem persistence_fault_ends_process:
  "main_loop plant_env plant_tags [noon_cycle\<lparr>connect_ok := False\<rparr>, noon_cycle]
     = ([[Purged (Some [])]], Crashed ConnectFailed) \<and>
   snd (main_loop plant_env plant_tags [noon_cycle\<lparr>commit_ok := False\<rparr>, noon_cycle])
     = Crashed CommitFailed \<and>
   length (fst (main_loop plant_env plant_tags [noon_cycle\<lparr>commit_ok := False\<rparr>, noon_cycle])) = 1 \<and>
   map (\<lambda>ev. durable ev [])
       (fst (main_loop plant_env plant_tags [noon_cycle\<lparr>commit_ok := False\<rparr>, noon_cycle]))
     = [[]] \<and>
   snd (main_loop plant_env plant_tags [noon_cycle, noon_cycle]) = Running"
  unfolding noon_cycle_def dev_up_def dev_offline_def plant_env_def plant_tags_def
    tag_a1_def tag_a2_def tag_b1_def at_def
  by code_simp

section \<open>Claim C8: the daily restart fires once per date\<close>

text \<open>
  C8. The restart fires only when the clock read at the top of the cycle shows hour 2 and
  minute 0; once it has fired at a reading \<open>now\<close>, the check made with the date it stored,
  at any reading \<open>now'\<close> of the same calendar date, does not fire and leaves the stored
  date alone; and the process in which it fires ends in that cycle, replaced by
  \<^verbatim>\<open>os.execv\<close> or stopped by its failure, so no later cycle of that process fires it.
\<close>

theorem restart_once_per_date:
  "(fst (restart_check now last_date) \<longrightarrow> hour now = 2 \<and> minute now = 0) \<and>
   (restart_check now last_date = (True, last_date') \<and> date_of now' = date_of now \<longrightarrow>
      restart_check now' last_date' = (False, last_date')) \<and>
   (fst (restart_check (now_check io) last_date) \<longrightarrow>
      run_cycles plcs tag_map last_date (io # ios)
        = ([[]], if execv_ok io then Restarted else Crashed ExecvFailed))"
  by (auto simp: restart_check_def restart_due_def split: if_splits)

text \<open>Fired at 02:00:03 with no restart recorded; checked again at 02:00:08.\<close>

theorem restart_once_per_date_witness:
  "restart_check (at 2 0 3) None = (True, Some (2024, 1, 10)) \<and>
   date_of (at 2 0 8) = date_of (at 2 0 3) \<and>
   restart_check (at 2 0 8) (Some (2024, 1, 10)) = (False, Some (2024, 1, 10)) \<and>
   run_cycles plant_plcs plant_tags None [noon_cycle\<lparr>now_check := at 2 0 3\<rparr>, noon_cycle]
     = ([[]], Restarted)"
proof -
  have f: "restart_check (at 2 0 3) None = (True, Some (2024, 1, 10))"
    by (simp add: restart_check_def restart_due_def at_def date_of_def)
  have d: "date_of (at 2 0 8) = date_of (at 2 0 3)"
    by (simp add: at_def date_of_def)
  have x: "execv_ok (noon_cycle\<lparr>now_check := at 2 0 3\<rparr>)"
    by (simp add: noon_cycle_def)
  from restart_once_per_date [of "at 2 0 3" None "Some (2024, 1, 10)" "at 2 0 8"
      "noon_cycle\<lparr>now_check := at 2 0 3\<rparr>" plant_plcs plant_tags "[noon_cycle]"] f d x
  show ?thesis by simp
qed

section \<open>Claim C7: the retention sweep\<close>

lemma purge_loop_clean:
  "\<forall>e \<in> set es. is_old c (fst e) \<longrightarrow> snd e \<Longrightarrow>
     purge_loop c es = (filter (\<lambda>e. \<not> is_old c (fst e)) es, False)"
  by (induction es) auto

lemma purge_loop_stops:
  "\<forall>e \<in> set pre. is_old c (fst e) \<longrightarrow> snd e \<Longrightarrow> is_old c f \<Longrightarrow>
     purge_loop c (pre @ (f, False) # post)
       = (filter (\<lambda>e. \<not> is_old c (fst e)) pre @ (f, False) # post, True)"
  by (induction pre) auto

lemma is_old_log_name:
  "is_old c (''plc_reader_'' @ ds @ ''.log'')
     \<longleftrightarrow> (\<exists>d. strptime_Ymd ds = Some d \<and> micros d < c)"
  by (simp add: is_old_def startswith_def endswith_def split: option.splits)

lemma micros_midnight:
  "micros \<lparr>year = y, month = m, day = d, hour = 0, minute = 0, second = 0, microsecond = 0\<rparr>
     = toordinal y m d * day_us"
  by (simp add: micros_def)

lemma ord_jan_2024: "toordinal 2024 (Suc 0) d = 738885 + int d"
  by (simp add: toordinal_def days_before_year_def days_before_month_def is_leap_def)

lemma parse_jan:
  "strptime_Ymd ''20240101'' = Some \<lparr>year = 2024, month = 1, day = 1, hour = 0, minute = 0, second = 0, microsecond = 0\<rparr>"
  "strptime_Ymd ''20240103'' = Some \<lparr>year = 2024, month = 1, day = 3, hour = 0, minute = 0, second = 0, microsecond = 0\<rparr>"
  "strptime_Ymd ''20240109'' = Some \<lparr>year = 2024, month = 1, day = 9, hour = 0, minute = 0, second = 0, microsecond = 0\<rparr>"
  "strptime_Ymd ''20240110'' = Some \<lparr>year = 2024, month = 1, day = 10, hour = 0, minute = 0, second = 0, microsecond = 0\<rparr>"
  by code_simp+

lemma is_old_jan:
  "is_old c ''plc_reader_20240101.log'' \<longleftrightarrow> 738886 * day_us < c"
  "is_old c ''plc_reader_20240103.log'' \<longleftrightarrow> 738888 * day_us < c"
  "is_old c ''plc_reader_20240109.log'' \<longleftrightarrow> 738894 * day_us < c"
  "is_old c ''plc_reader_20240110.log'' \<longleftrightarrow> 738895 * day_us < c"
  using is_old_log_name [of c "''20240101''"] is_old_log_name [of c "''20240103''"]
    is_old_log_name [of c "''20240109''"] is_old_log_name [of c "''20240110''"]
  by (simp_all add: parse_jan micros_midnight ord_jan_2024)

lemma sweep_day_10:
  assumes "h < 24" "mi < 60" "s < 60" "us < 1000000" "0 < h + mi + s + us"
  shows "purge_old_logs \<lparr>year = 2024, month = 1, day = 10, hour = h, minute = mi, second = s,
             microsecond = us\<rparr> 7 (Some jan_logs)
           = (Some [(''plc_reader_20240109.log'', True), (''plc_reader_20240110.log'', True)], [])"
proof -
  define tod where "tod = ((int h * 60 + int mi) * 60 + int s) * 1000000 + int us"
  have pos: "0 < tod" using assms(5) unfolding tod_def by (cases "h = 0"; cases "mi = 0"; cases "s = 0") auto
  have "(int h * 60 + int mi) * 60 + int s \<le> (23 * 60 + 59) * 60 + 59"
    using assms(1-3) by simp
  then have "((int h * 60 + int mi) * 60 + int s) * 1000000 \<le> 86399 * 1000000" by simp
  then have lt: "tod < day_us" using assms(4) unfolding tod_def day_us_def by simp
  have c: "micros \<lparr>year = 2024, month = 1, day = 10, hour = h, minute = mi, second = s,
             microsecond = us\<rparr> - 7 * day_us = 738888 * day_us + tod"
    by (simp add: micros_def ord_jan_2024 tod_def)
  show ?thesis
    unfolding purge_old_logs_def Let_def c jan_logs_def
    using pos lt by (simp add: is_old_jan day_us_def)
qed

text \<open>
  C7 as the code has it. With \<open>cutoff\<close> the clock reading minus \<open>days_keep\<close> days: when
  every removal succeeds, the sweep removes exactly the entries that are old (named
  \<open>plc_reader_<date>.log\<close>, the date parsed by \<open>strptime\<close> and its midnight earlier than the
  cutoff) and prints nothing; a name whose date does not parse is never removed and does
  not stop the sweep. A removal that fails ends the sweep of that cycle: the entries
  before it are swept, that entry and all after it stay, and the error is printed. A
  directory that cannot be listed is left alone with the error printed. The sweep always
  returns. On 10 January, at any time after 00:00:00.000000, it removes the partitions of
  1 and 3 January and keeps those of 9 and 10 January.
\<close>

theorem retention_sweep:
  "((\<forall>e \<in> set es. is_old (micros now - k * day_us) (fst e) \<longrightarrow> snd e) \<longrightarrow>
      purge_old_logs now k (Some es)
        = (Some (filter (\<lambda>e. \<not> is_old (micros now - k * day_us) (fst e)) es), [])) \<and>
   (is_old c (''plc_reader_'' @ ds @ ''.log'')
      \<longleftrightarrow> (\<exists>d. strptime_Ymd ds = Some d \<and> micros d < c)) \<and>
   ((\<forall>e \<in> set pre. is_old c (fst e) \<longrightarrow> snd e) \<and> is_old c f \<longrightarrow>
      purge_loop c (pre @ (f, False) # post)
        = (filter (\<lambda>e. \<not> is_old c (fst e)) pre @ (f, False) # post, True)) \<and>
   purge_old_logs now k None = (None, [''[LOG_PURGE_ERROR]'']) \<and>
   (h < 24 \<and> mi < 60 \<and> s < 60 \<and> us < 1000000 \<and> 0 < h + mi + s + us \<longrightarrow>
      purge_old_logs \<lparr>year = 2024, month = 1, day = 10, hour = h, minute = mi, second = s,
          microsecond = us\<rparr> 7 (Some jan_logs)
        = (Some [(''plc_reader_20240109.log'', True), (''plc_reader_20240110.log'', True)], []))"
proof (intro conjI impI)
  assume "\<forall>e \<in> set es. is_old (micros now - k * day_us) (fst e) \<longrightarrow> snd e"
  then show "purge_old_logs now k (Some es)
        = (Some (filter (\<lambda>e. \<not> is_old (micros now - k * day_us) (fst e)) es), [])"
    by (simp add: purge_old_logs_def purge_loop_clean)
next
  show "is_old c (''plc_reader_'' @ ds @ ''.log'')
      \<longleftrightarrow> (\<exists>d. strptime_Ymd ds = Some d \<and> micros d < c)"
    by (rule is_old_log_name)
next
  assume "(\<forall>e \<in> set pre. is_old c (fst e) \<longrightarrow> snd e) \<and> is_old c f"
  then show "purge_loop c (pre @ (f, False) # post)
        = (filter (\<lambda>e. \<not> is_old c (fst e)) pre @ (f, False) # post, True)"
    by (simp add: purge_loop_stops)
next
  show "purge_old_logs now k None = (None, [''[LOG_PURGE_ERROR]''])"
    by (simp add: purge_old_logs_def)
next
  assume "h < 24 \<and> mi < 60 \<and> s < 60 \<and> us < 1000000 \<and> 0 < h + mi + s + us"
  then show "purge_old_logs \<lparr>year = 2024, month = 1, day = 10, hour = h, minute = mi,
          second = s, microsecond = us\<rparr> 7 (Some jan_logs)
        = (Some [(''plc_reader_20240109.log'', True), (''plc_reader_20240110.log'', True)], [])"
    using sweep_day_10 [of h mi s us] by blast
qed

text \<open>
  At 12:00:00 on 10 January: a directory with a foreign file and a name that does not
  parse; a sweep stopped by the partition of 3 January; the scenario.
\<close>

theorem retention_sweep_witness:
  "purge_old_logs (at 12 0 0) 7
     (Some [(''plc_reader_20240101.log'', True), (''notes.txt'', True),
            (''plc_reader_2024xx09.log'', True), (''plc_reader_20240103.log'', False),
            (''plc_reader_20240109.log'', True)])
     = (Some [(''notes.txt'', True), (''plc_reader_2024xx09.log'', True),
              (''plc_reader_20240103.log'', False), (''plc_reader_20240109.log'', True)],
        [''[LOG_PURGE_ERROR]'']) \<and>
   purge_old_logs (at 12 0 0) 7
     (Some [(''plc_reader_20240101.log'', True), (''notes.txt'', True),
            (''plc_reader_2024xx09.log'', True), (''plc_reader_20240109.log'', False)])
     = (Some [(''notes.txt'', True), (''plc_reader_2024xx09.log'', True),
              (''plc_reader_20240109.log'', False)], []) \<and>
   is_old (micros (at 12 0 0) - 7 * day_us) (''plc_reader_'' @ ''20240103'' @ ''.log'') \<and>
   purge_old_logs (at 12 0 0) 7 (Some jan_logs)
     = (Some [(''plc_reader_20240109.log'', True), (''plc_reader_20240110.log'', True)], [])"
proof -
  let ?c = "micros (at 12 0 0) - 7 * day_us"
  let ?pre = "[(''plc_reader_20240101.log'', True), (''notes.txt'', True),
               (''plc_reader_2024xx09.log'', True)]"
  let ?es = "[(''plc_reader_20240101.log'', True), (''notes.txt'', True),
              (''plc_reader_2024xx09.log'', True), (''plc_reader_20240109.log'', False)]"
  note th = retention_sweep [where es = ?es and now = "at 12 0 0" and k = 7 and c = ?c
      and ds = "''20240103''" and pre = ?pre and f = "''plc_reader_20240103.log''"
      and post = "[(''plc_reader_20240109.log'', True)]"
      and h = 12 and mi = 0 and s = 0 and us = 0]
  have h1: "\<forall>e \<in> set ?es. is_old ?c (fst e) \<longrightarrow> snd e"
    unfolding at_def by code_simp
  have h2: "\<forall>e \<in> set ?pre. is_old ?c (fst e) \<longrightarrow> snd e"
    unfolding at_def by code_simp
  have h3: "is_old ?c ''plc_reader_20240103.log''"
    unfolding at_def by code_simp
  have f1: "filter (\<lambda>e. \<not> is_old ?c (fst e)) ?es
              = [(''notes.txt'', True), (''plc_reader_2024xx09.log'', True),
                 (''plc_reader_20240109.log'', False)]"
    unfolding at_def by code_simp
  have f2: "filter (\<lambda>e. \<not> is_old ?c (fst e)) ?pre
              = [(''notes.txt'', True), (''plc_reader_2024xx09.log'', True)]"
    unfolding at_def by code_simp
  have a: "purge_old_logs (at 12 0 0) 7 (Some ?es)
             = (Some [(''notes.txt'', True), (''plc_reader_2024xx09.log'', True),
                      (''plc_reader_20240109.log'', False)], [])"
    using th h1 f1 by simp
  have b: "purge_loop ?c (?pre @ (''plc_reader_20240103.log'', False)
                 # [(''plc_reader_20240109.log'', True)])
             = ([(''notes.txt'', True), (''plc_reader_2024xx09.log'', True),
                 (''plc_reader_20240103.log'', False), (''plc_reader_20240109.log'', True)],
                True)"
    using th h2 h3 f2 by simp
  have c: "purge_old_logs (at 12 0 0) 7 (Some jan_logs)
             = (Some [(''plc_reader_20240109.log'', True), (''plc_reader_20240110.log'', True)],
                [])"
    using th by (simp add: at_def)
  from b have b': "purge_old_logs (at 12 0 0) 7
     (Some [(''plc_reader_20240101.log'', True), (''notes.txt'', True),
            (''plc_reader_2024xx09.log'', True), (''plc_reader_20240103.log'', False),
            (''plc_reader_20240109.log'', True)])
     = (Some [(''notes.txt'', True), (''plc_reader_2024xx09.log'', True),
              (''plc_reader_20240103.log'', False), (''plc_reader_20240109.log'', True)],
        [''[LOG_PURGE_ERROR]''])"
    by (simp add: purge_old_logs_def)
  from a b' c h3 show ?thesis by simp
qed

text \<open>
  C7 as stated fails in two places. A partition that cannot be deleted is not passed
  over: the exception leaves the loop, so with the partition of 1 January locked the
  partition of 3 January, listed after it, stays as well. And at 00:00:00.000000 of
  10 January the partition of 3 January is exactly seven days old, not older, and stays.
\<close>

theorem retention_sweep_counterexample:
  "purge_old_logs (at 12 0 0) 7
     (Some [(''plc_reader_20240101.log'', False), (''plc_reader_20240103.log'', True),
            (''plc_reader_20240109.log'', True), (''plc_reader_20240110.log'', True)])
     = (Some [(''plc_reader_20240101.log'', False), (''plc_reader_20240103.log'', True),
              (''plc_reader_20240109.log'', True), (''plc_reader_20240110.log'', True)],
        [''[LOG_PURGE_ERROR]'']) \<and>
   purge_old_logs (at 0 0 0) 7 (Some jan_logs)
     = (Some [(''plc_reader_20240103.log'', True), (''plc_reader_20240109.log'', True),
              (''plc_reader_20240110.log'', True)], [])"
  unfolding at_def jan_logs_def by code_simp

end
